theory Spec2Isabelle
  imports Complex_Main "HOL-Library.Sublist"
begin

text \<open>
  A model of \<^verbatim>\<open>ForumMediaAnalyzer/MediaAnalyzer.py\<close>: the similarity functions
  \<^verbatim>\<open>_scale_images\<close>, \<^verbatim>\<open>_mse\<close> and \<^verbatim>\<open>_img_hash\<close>, and \<^verbatim>\<open>run()\<close> with its pagination loop,
  its bulk admission path and its detection path, as functions on an explicit store.
  The definitions come first, the properties of the code after them.
\<close>

section \<open>Exceptions and results\<close>

text \<open>
  The exceptions that the code of \<^verbatim>\<open>MediaAnalyzer.py\<close> can raise. \<^verbatim>\<open>run()\<close> catches
  exactly three of them (lines 294-299) and re-raises each wrapped in
  \<^verbatim>\<open>AnalyzeConditionsNotMetException\<close>; every other one leaves \<^verbatim>\<open>run()\<close> as it is.
\<close>

datatype exn =
    RequestException
  | MongoServerSelectionTimeoutError
  | JSONDecodeError
  | AnalyzeConditionsNotMetException exn
  | KeyError
  | ValueError
  | AttributeError
  | IndexError
  | TypeError
  | BinasciiError
  | NoFile

text \<open>
  Writes to the store that happened before an exception stay: both outcomes carry the
  state reached.
\<close>

datatype 'a result = Done 'a | Raised exn 'a

fun state_of :: "'a result \<Rightarrow> 'a" where
  "state_of (Done s) = s"
| "state_of (Raised e s) = s"

fun exn_of :: "'a result \<Rightarrow> exn option" where
  "exn_of (Done s) = None"
| "exn_of (Raised e s) = Some e"

section \<open>Images and NumPy arithmetic\<close>

text \<open>
  A decoded grayscale image is a two-dimensional \<^verbatim>\<open>uint8\<close> array: a list of rows of
  pixel values. NumPy's \<^verbatim>\<open>float64\<close> results are modelled by exact rationals extended
  with the two infinities and NaN (division by zero does not raise in NumPy).
\<close>

type_synonym image = "nat list list"

datatype npfloat = Fin rat | PInf | NInf | NaN

definition shape :: "image \<Rightarrow> nat \<times> nat" where
  "shape im = (length im, (case im of [] \<Rightarrow> 0 | r # _ \<Rightarrow> length r))"

definition np_div :: "nat \<Rightarrow> nat \<Rightarrow> npfloat" where
  "np_div a b = (if b = 0 then (if a = 0 then NaN else PInf) else Fin (of_nat a / of_nat b))"

fun np_sub :: "npfloat \<Rightarrow> npfloat \<Rightarrow> npfloat" where
  "np_sub (Fin a) (Fin b) = Fin (a - b)"
| "np_sub NaN _ = NaN"
| "np_sub _ NaN = NaN"
| "np_sub PInf PInf = NaN"
| "np_sub NInf NInf = NaN"
| "np_sub PInf _ = PInf"
| "np_sub NInf _ = NInf"
| "np_sub (Fin a) PInf = NInf"
| "np_sub (Fin a) NInf = PInf"

fun np_abs :: "npfloat \<Rightarrow> npfloat" where
  "np_abs (Fin a) = Fin \<bar>a\<bar>"
| "np_abs PInf = PInf"
| "np_abs NInf = PInf"
| "np_abs NaN = NaN"

text \<open>\<^verbatim>\<open>x >= r\<close> for a float \<open>x\<close> and a finite constant \<open>r\<close>: false for NaN.\<close>

fun np_ge :: "npfloat \<Rightarrow> rat \<Rightarrow> bool" where
  "np_ge (Fin a) r = (r \<le> a)"
| "np_ge PInf r = True"
| "np_ge NInf r = False"
| "np_ge NaN r = False"

text \<open>
  Elementwise operation on two one-dimensional arrays with NumPy broadcasting: equal
  lengths, or one of them of length one; anything else raises \<^verbatim>\<open>ValueError\<close>.
\<close>

definition broadcast :: "('a \<Rightarrow> 'b \<Rightarrow> 'c) \<Rightarrow> 'a list \<Rightarrow> 'b list \<Rightarrow> exn + 'c list" where
  "broadcast f xs ys =
     (if length xs = length ys then Inr (map2 f xs ys)
      else if length xs = 1 then Inr (map (f (hd xs)) ys)
      else if length ys = 1 then Inr (map (\<lambda>x. f x (hd ys)) xs)
      else Inl ValueError)"

text \<open>
  The truth value of an array, as \<^verbatim>\<open>if a:\<close> asks for it: defined for at most one
  element, \<^verbatim>\<open>ValueError\<close> ("truth value of an array with more than one element is
  ambiguous") otherwise.
\<close>

fun truth :: "bool list \<Rightarrow> exn + bool" where
  "truth [] = Inr False"
| "truth [b] = Inr b"
| "truth _ = Inl ValueError"

definition image_truth :: "image \<Rightarrow> exn + bool" where
  "image_truth im = truth (map (\<lambda>p. p \<noteq> 0) (concat im))"

text \<open>\<^verbatim>\<open>sum(image[:2])\<close>: Python's \<^verbatim>\<open>sum\<close> adds the first two rows as \<^verbatim>\<open>uint8\<close> arrays.\<close>

definition sum_rows2 :: "image \<Rightarrow> nat list" where
  "sum_rows2 im =
     (case im of [] \<Rightarrow> [] | [r] \<Rightarrow> r
      | r0 # r1 # _ \<Rightarrow> map2 (\<lambda>a b. (a + b) mod 256) r0 r1)"

section \<open>The similarity primitives\<close>

text \<open>
  The libraries called by the code are parameters of the model: the upstream REST
  interface, the health check of the store, base64 and image decoding, OpenCV's
  \<^verbatim>\<open>resize\<close>, scikit-image's \<^verbatim>\<open>structural_similarity\<close> and the image hash function.
\<close>

record upost =
  post_ArticleId :: string
  post_MediaData :: string

record document =
  doc_StartPostId :: string
  doc_Posts :: "upost list"

datatype response = TransportError | BadJson | Page "document list"

type_synonym blob = "nat list"

record env =
  query :: "nat \<Rightarrow> nat \<Rightarrow> response"
  server_info :: bool
  b64decode :: "string \<Rightarrow> blob option"
  imdecode :: "blob \<Rightarrow> image option"
  resize :: "image \<Rightarrow> nat \<times> nat \<Rightarrow> image"
  structural_similarity :: "image \<Rightarrow> image \<Rightarrow> exn + npfloat"
  hashfunc :: "image \<Rightarrow> bool list"

text \<open>
  \<^verbatim>\<open>_scale_images\<close> (lines 72-95). The arguments may be \<^verbatim>\<open>None\<close> (an image that did not
  decode, or the candidate after an earlier pair was found not comparable), where
  \<^verbatim>\<open>.shape\<close> raises \<^verbatim>\<open>AttributeError\<close>. The second test divides pixel row 0 by pixel
  row 1 of each image (\<^verbatim>\<open>image_one[0] / image_one[1]\<close>), and the third compares the
  sums of the first two pixel rows: both are arrays, whose truth value is asked for.
\<close>

definition scale_images ::
  "env \<Rightarrow> image option \<Rightarrow> image option \<Rightarrow> rat \<Rightarrow> exn + (image option \<times> image option)" where
  "scale_images env image_one image_two scale_percent_dif =
     (case image_one of None \<Rightarrow> Inl AttributeError
      | Some one \<Rightarrow>
     (case image_two of None \<Rightarrow> Inl AttributeError
      | Some two \<Rightarrow>
        if shape one = shape two then Inr (Some one, Some two)
        else if length one < 2 \<or> length two < 2 then Inl IndexError
        else
          (case broadcast np_sub (map2 np_div (one ! 0) (one ! 1))
                                 (map2 np_div (two ! 0) (two ! 1)) of
             Inl e \<Rightarrow> Inl e
           | Inr d \<Rightarrow>
          (case truth (map (\<lambda>x. np_ge (np_abs x) scale_percent_dif) d) of
             Inl e \<Rightarrow> Inl e
           | Inr True \<Rightarrow> Inr (None, None)
           | Inr False \<Rightarrow>
          (case broadcast (\<lambda>a b. b < a) (sum_rows2 (take 2 one)) (sum_rows2 (take 2 two)) of
             Inl e \<Rightarrow> Inl e
           | Inr g \<Rightarrow>
          (case truth g of
             Inl e \<Rightarrow> Inl e
           | Inr True \<Rightarrow>
               Inr (Some (resize env one (snd (shape two), fst (shape two))), Some two)
           | Inr False \<Rightarrow>
               Inr (Some one, Some (resize env two (snd (shape one), fst (shape one))))))))))"

text \<open>
  \<^verbatim>\<open>_mse\<close> (lines 97-107): the sum of the squared pixel differences, divided by the
  number of pixels of the first image. The subtraction broadcasts in both dimensions.
\<close>

definition bdim :: "nat \<Rightarrow> nat \<Rightarrow> nat option" where
  "bdim n m = (if n = m then Some n else if n = 1 then Some m else if m = 1 then Some n else None)"

definition pixel :: "image \<Rightarrow> nat \<Rightarrow> nat \<Rightarrow> int" where
  "pixel im i j =
     int (im ! (if fst (shape im) = 1 then 0 else i) ! (if snd (shape im) = 1 then 0 else j))"

definition mse :: "image \<Rightarrow> image \<Rightarrow> exn + npfloat" where
  "mse image_one image_two =
     (case (bdim (fst (shape image_one)) (fst (shape image_two)),
            bdim (snd (shape image_one)) (snd (shape image_two))) of
        (Some h, Some w) \<Rightarrow>
          (let err = (\<Sum>i \<leftarrow> [0..<h]. \<Sum>j \<leftarrow> [0..<w].
                        (pixel image_one i j - pixel image_two i j)\<^sup>2);
               n = fst (shape image_one) * snd (shape image_one)
           in Inr (if n = 0 then (if err = 0 then NaN else PInf)
                   else Fin (of_int err / of_nat n)))
      | _ \<Rightarrow> Inl ValueError)"

text \<open>
  \<^verbatim>\<open>_img_hash\<close> (lines 109-122). The hash of an image is a bit array, and the difference
  \<^verbatim>\<open>h1 - h2\<close> of two \<^verbatim>\<open>ImageHash\<close> values is the number of positions where they differ
  (\<^verbatim>\<open>TypeError\<close> for hashes of different sizes). Python's \<^verbatim>\<open>int((abs(s)+s)/2)\<close> halves an
  even integer; the quotient is exact for magnitudes below \<open>2^53\<close>, far above any
  count of hash bits.
\<close>

definition hash_sub :: "bool list \<Rightarrow> bool list \<Rightarrow> exn + int" where
  "hash_sub h1 h2 =
     (if length h1 \<noteq> length h2 then Inl TypeError
      else Inr (int (length (filter (\<lambda>(a, b). a \<noteq> b) (zip h1 h2)))))"

definition img_hash :: "(image \<Rightarrow> bool list) \<Rightarrow> int \<Rightarrow> image \<Rightarrow> image \<Rightarrow> exn + int" where
  "img_hash func cutoff image_one image_two =
     (let h1 = func image_one; h2 = func image_two
      in case hash_sub h1 h2 of
           Inl e \<Rightarrow> Inl e
         | Inr d \<Rightarrow> (let s = d - cutoff in Inr ((\<bar>s\<bar> + s) div 2)))"

section \<open>The store\<close>

text \<open>
  The MongoDB collections and the GridFS bucket the code works on, together with the
  local variables of \<^verbatim>\<open>run()\<close>. \<^verbatim>\<open>Posts\<close> is kept in insertion order, the order in
  which \<^verbatim>\<open>find({})\<close> yields it. The bulk path stores the blob reference under the key
  \<^verbatim>\<open>Media\<close> (line 203), the detection path under \<^verbatim>\<open>MediaId\<close> (line 237), and only the
  bulk path stores an \<^verbatim>\<open>OrderNum\<close>: a key that a document does not have is \<open>None\<close>.
  The code spells the back reference \<^verbatim>\<open>RepostOff\<close>. Timestamps are left out.
\<close>

record evidence =
  ev_ArticleId :: string
  ev_mse :: npfloat
  ev_ssim :: npfloat
  ev_hs :: int
  ev_certainty :: int

record post =
  oid :: nat
  ArticleId :: string
  OrderNum :: "int option"
  RunId :: nat
  Dim :: "nat \<times> nat"
  Media :: "nat option"
  MediaId :: "nat option"
  IsOriginal :: bool
  RepostOff :: "nat option"
  Reposts :: "evidence list option"

record run_rec =
  run_oid :: nat
  EndProcessTime :: "nat option"
  PostsProcessed :: nat
  BatchesProcessed :: nat

record state =
  Posts :: "post list"
  Counter :: "int option"
  Blobs :: "blob list"
  Runs :: "run_rec list"
  next_oid :: nat
  request_offset :: nat
  final_batch :: bool
  last_article_found :: bool
  posts_processed :: nat
  batches_processed :: nat

text \<open>\<^verbatim>\<open>__init__\<close> (lines 69-70): the counter document is created with value 1 if there is none.\<close>

definition init :: "state \<Rightarrow> state" where
  "init s = (if Counter s = None then s\<lparr>Counter := Some 1\<rparr> else s)"

text \<open>\<^verbatim>\<open>insert_one\<close> gives the document its \<^verbatim>\<open>_id\<close>; \<^verbatim>\<open>replace_one\<close> replaces the first
  document with the given \<^verbatim>\<open>_id\<close>.\<close>

definition insert_one :: "post \<Rightarrow> state \<Rightarrow> state" where
  "insert_one md s = s\<lparr>Posts := Posts s @ [md\<lparr>oid := next_oid s\<rparr>], next_oid := Suc (next_oid s)\<rparr>"

fun replace_one :: "nat \<Rightarrow> post \<Rightarrow> post list \<Rightarrow> post list" where
  "replace_one i q [] = []"
| "replace_one i q (p # ps) = (if oid p = i then q # ps else p # replace_one i q ps)"

text \<open>
  \<^verbatim>\<open>find_one(sort=[("OrderNum", ASCENDING)])\<close> (line 145): a document without the key
  sorts before every number.
\<close>

definition find_one_by_OrderNum :: "post list \<Rightarrow> post option" where
  "find_one_by_OrderNum ps =
     (case filter (\<lambda>p. OrderNum p = None) ps of
        p # _ \<Rightarrow> Some p
      | [] \<Rightarrow> (case ps of [] \<Rightarrow> None
               | _ \<Rightarrow> Some (arg_min_list (\<lambda>p. the (OrderNum p)) ps)))"

section \<open>The bulk admission path (lines 188-210)\<close>

definition bulk_admit :: "env \<Rightarrow> nat \<Rightarrow> upost \<Rightarrow> state \<Rightarrow> state result" where
  "bulk_admit env rid p s =
     (case b64decode env (post_MediaData p) of
        None \<Rightarrow> Raised BinasciiError s
      | Some d \<Rightarrow>
          (let im = imdecode env d;
               media_id = length (Blobs s);
               s1 = s\<lparr>Blobs := Blobs s @ [d]\<rparr>
           in case Counter s1 of
                None \<Rightarrow> Raised AttributeError s1
              | Some order_num \<Rightarrow>
                  (case im of
                     None \<Rightarrow> Raised AttributeError s1
                   | Some i \<Rightarrow>
                       (let md = \<lparr>oid = 0, ArticleId = post_ArticleId p,
                                  OrderNum = Some order_num, RunId = rid, Dim = shape i,
                                  Media = Some media_id, MediaId = None, IsOriginal = True,
                                  RepostOff = None, Reposts = Some []\<rparr>;
                            s2 = insert_one md s1;
                            s3 = s2\<lparr>Counter := Some (order_num + 1)\<rparr>
                        in Done (s3\<lparr>posts_processed := posts_processed s3 + 1\<rparr>)))))"

fun save_posts :: "env \<Rightarrow> nat \<Rightarrow> upost list \<Rightarrow> state \<Rightarrow> state result" where
  "save_posts env rid [] s = Done s"
| "save_posts env rid (p # ps) s =
     (case bulk_admit env rid p s of
        Done s' \<Rightarrow> save_posts env rid ps s'
      | Raised e s' \<Rightarrow> Raised e s')"

fun save_docs :: "env \<Rightarrow> nat \<Rightarrow> document list \<Rightarrow> state \<Rightarrow> state result" where
  "save_docs env rid [] s = Done s"
| "save_docs env rid (d # ds) s =
     (case save_posts env rid (doc_Posts d) s of
        Done s' \<Rightarrow> save_docs env rid ds s'
      | Raised e s' \<Rightarrow> Raised e s')"

section \<open>The detection path (lines 212-287)\<close>

text \<open>
  One pass of the loop over the stored posts (lines 244-284). The loop variables are
  the candidate image \<^verbatim>\<open>im\<close>, which line 248 rebinds to the first result of
  \<^verbatim>\<open>_scale_images\<close>, the metadata draft \<^verbatim>\<open>md\<close> and the store. \<^verbatim>\<open>if not im:\<close> asks for
  the truth value of \<^verbatim>\<open>None\<close> or of an array.
\<close>

definition not_im :: "image option \<Rightarrow> exn + bool" where
  "not_im im =
     (case im of None \<Rightarrow> Inr True
      | Some a \<Rightarrow> (case image_truth a of Inl e \<Rightarrow> Inl e | Inr b \<Rightarrow> Inr (\<not> b)))"

type_synonym scan = "image option \<times> post \<times> state"

definition classify :: "post \<Rightarrow> npfloat \<Rightarrow> npfloat \<Rightarrow> int \<Rightarrow> scan \<Rightarrow> scan result" where
  "classify pp m ss hs c =
     (case c of (im, md, s) \<Rightarrow>
        (let md' = md\<lparr>IsOriginal := False, RepostOff := Some (oid pp), Reposts := None\<rparr>
         in case Reposts pp of
              None \<Rightarrow> Raised AttributeError (im, md', s)
            | Some evs \<Rightarrow>
                (let pp' = pp\<lparr>Reposts := Some (evs @
                             [\<lparr>ev_ArticleId = ArticleId md', ev_mse = m, ev_ssim = ss,
                               ev_hs = hs, ev_certainty = 1\<rparr>])\<rparr>
                 in Done (im, md', s\<lparr>Posts := replace_one (oid pp) pp' (Posts s)\<rparr>))))"

definition compare_pp :: "env \<Rightarrow> post \<Rightarrow> scan \<Rightarrow> scan result" where
  "compare_pp env pp c =
     (case c of (im, md, s) \<Rightarrow>
      (case MediaId pp of
         None \<Rightarrow> Raised KeyError c
       | Some k \<Rightarrow>
           if length (Blobs s) \<le> k then Raised NoFile c
           else
             (case scale_images env im (imdecode env (Blobs s ! k)) (2 / 100) of
                Inl e \<Rightarrow> Raised e c
              | Inr (im', im0') \<Rightarrow>
             (case not_im im' of
                Inl e \<Rightarrow> Raised e (im', md, s)
              | Inr True \<Rightarrow> Done (im', md, s)
              | Inr False \<Rightarrow>
             (case (im', im0') of
                (Some a, Some b) \<Rightarrow>
                  (case mse a b of
                     Inl e \<Rightarrow> Raised e (im', md, s)
                   | Inr m \<Rightarrow>
                  (case structural_similarity env a b of
                     Inl e \<Rightarrow> Raised e (im', md, s)
                   | Inr ss \<Rightarrow>
                  (case img_hash (hashfunc env) 10 a b of
                     Inl e \<Rightarrow> Raised e (im', md, s)
                   | Inr hs \<Rightarrow>
                       if hs = 0 then
                         if np_ge ss (75 / 100) then
                           if \<not> np_ge m 2000 \<and> IsOriginal pp
                           then classify pp m ss hs (im', md, s)
                           else Done (im', md, s)
                         else Done (im', md, s)
                       else Done (im', md, s))))
              | _ \<Rightarrow> Raised AttributeError (im', md, s))))))"

fun scan_corpus :: "env \<Rightarrow> post list \<Rightarrow> scan \<Rightarrow> scan result" where
  "scan_corpus env [] c = Done c"
| "scan_corpus env (pp # pps) c =
     (case compare_pp env pp c of
        Done c' \<Rightarrow> scan_corpus env pps c'
      | Raised e c' \<Rightarrow> Raised e c')"

text \<open>The body of the loop over the posts of a document, after the boundary test
  (lines 227-287).\<close>

definition detect :: "env \<Rightarrow> nat \<Rightarrow> upost \<Rightarrow> state \<Rightarrow> state result" where
  "detect env rid p s =
     (case b64decode env (post_MediaData p) of
        None \<Rightarrow> Raised BinasciiError s
      | Some d \<Rightarrow>
          (let im = imdecode env d;
               media_id = length (Blobs s);
               s1 = s\<lparr>Blobs := Blobs s @ [d]\<rparr>
           in case im of
                None \<Rightarrow> Raised AttributeError s1
              | Some i \<Rightarrow>
                  (let md = \<lparr>oid = 0, ArticleId = post_ArticleId p, OrderNum = None,
                             RunId = rid, Dim = shape i, Media = None,
                             MediaId = Some media_id, IsOriginal = True,
                             RepostOff = None, Reposts = Some []\<rparr>
                   in case scan_corpus env (Posts s1) (im, md, s1) of
                        Raised e (im', md', s') \<Rightarrow> Raised e s'
                      | Done (im', md', s') \<Rightarrow> Done (insert_one md' s'))))"

fun resume_posts :: "env \<Rightarrow> nat \<Rightarrow> string \<Rightarrow> upost list \<Rightarrow> state \<Rightarrow> state result" where
  "resume_posts env rid a [] s = Done s"
| "resume_posts env rid a (p # ps) s =
     (if a = post_ArticleId p then Done (s\<lparr>last_article_found := True\<rparr>)
      else case detect env rid p s of
             Done s' \<Rightarrow> resume_posts env rid a ps s'
           | Raised e s' \<Rightarrow> Raised e s')"

fun resume_docs :: "env \<Rightarrow> nat \<Rightarrow> string \<Rightarrow> document list \<Rightarrow> state \<Rightarrow> state result" where
  "resume_docs env rid a [] s = Done s"
| "resume_docs env rid a (d # ds) s =
     (if a = doc_StartPostId d \<or> last_article_found s then Done (s\<lparr>final_batch := True\<rparr>)
      else case resume_posts env rid a (doc_Posts d) s of
             Done s' \<Rightarrow> resume_docs env rid a ds s'
           | Raised e s' \<Rightarrow> Raised e s')"

section \<open>The pagination loop and \<^verbatim>\<open>run()\<close> (lines 124-299)\<close>

text \<open>
  \<^verbatim>\<open>while True\<close> has no bound of its own: the loop takes fuel, one unit for each page
  requested, and \<open>None\<close> says that the fuel ran out before the loop was left.
\<close>

definition process_page :: "env \<Rightarrow> nat \<Rightarrow> post option \<Rightarrow> document list \<Rightarrow> state \<Rightarrow> state result" where
  "process_page env rid last_article docs s =
     (let with_posts = filter (\<lambda>doc. length (doc_Posts doc) \<noteq> 0) docs
      in case last_article of
           None \<Rightarrow> save_docs env rid with_posts s
         | Some la \<Rightarrow> resume_docs env rid (ArticleId la) with_posts s)"

fun run_loop :: "nat \<Rightarrow> env \<Rightarrow> nat \<Rightarrow> nat \<Rightarrow> post option \<Rightarrow> state \<Rightarrow> state result option" where
  "run_loop 0 env batch rid last_article s = None"
| "run_loop (Suc fuel) env batch rid last_article s =
     (case query env batch (request_offset s) of
        TransportError \<Rightarrow> Some (Raised RequestException s)
      | BadJson \<Rightarrow> Some (Raised JSONDecodeError s)
      | Page docs \<Rightarrow>
          if length docs = 0 then Some (Done s)
          else
            (let s1 = (if length docs < batch then s\<lparr>final_batch := True\<rparr> else s)
             in if length (filter (\<lambda>doc. length (doc_Posts doc) = 0) docs) = length docs
                then run_loop fuel env batch rid last_article
                       (s1\<lparr>request_offset := request_offset s1 + batch,
                           batches_processed := batches_processed s1 + 1\<rparr>)
                else
                  (case process_page env rid last_article docs s1 of
                     Raised e s2 \<Rightarrow> Some (Raised e s2)
                   | Done s2 \<Rightarrow>
                       if final_batch s2 then Some (Done s2)
                       else run_loop fuel env batch rid last_article
                              (s2\<lparr>request_offset := request_offset s2 + batch\<rparr>))))"

text \<open>The three \<^verbatim>\<open>except\<close> clauses of lines 294-299.\<close>

fun handler :: "'a result \<Rightarrow> 'a result" where
  "handler (Raised RequestException s) = Raised (AnalyzeConditionsNotMetException RequestException) s"
| "handler (Raised MongoServerSelectionTimeoutError s) =
     Raised (AnalyzeConditionsNotMetException MongoServerSelectionTimeoutError) s"
| "handler (Raised JSONDecodeError s) = Raised (AnalyzeConditionsNotMetException JSONDecodeError) s"
| "handler r = r"

definition run :: "nat \<Rightarrow> env \<Rightarrow> nat \<Rightarrow> state \<Rightarrow> state result option" where
  "run fuel env batch s =
     (if query env 1 0 = TransportError then Some (handler (Raised RequestException s))
      else if \<not> server_info env then Some (handler (Raised MongoServerSelectionTimeoutError s))
      else
        (let last_article = find_one_by_OrderNum (Posts s);
             rid = next_oid s;
             s1 = s\<lparr>Runs := Runs s @ [\<lparr>run_oid = rid, EndProcessTime = None,
                                        PostsProcessed = 0, BatchesProcessed = 0\<rparr>],
                    next_oid := Suc rid,
                    request_offset := 0, final_batch := False, last_article_found := False,
                    posts_processed := 0, batches_processed := 0\<rparr>
         in map_option handler (run_loop fuel env batch rid last_article s1)))"

section \<open>Properties of stored posts\<close>

text \<open>
  The exclusivity of the two roles of a post: an original has no back reference and
  has a list of evidence, a repost has a back reference and no list of evidence.
\<close>

definition exclusive :: "post \<Rightarrow> bool" where
  "exclusive p \<longleftrightarrow>
     (IsOriginal p \<longrightarrow> RepostOff p = None \<and> Reposts p \<noteq> None) \<and>
     (\<not> IsOriginal p \<longrightarrow> RepostOff p \<noteq> None \<and> Reposts p = None)"

definition all_exclusive :: "state \<Rightarrow> bool" where
  "all_exclusive s \<longleftrightarrow> (\<forall>p \<in> set (Posts s). exclusive p)"

text \<open>
  What the first testable property expects of a run without a stored post. The posts
  that the pagination loop receives, page after page from a given offset: an empty page
  ends the walk, a page without posts is passed over, and a page shorter than the batch
  size is the last one with posts to be taken.
\<close>

fun received :: "nat \<Rightarrow> env \<Rightarrow> nat \<Rightarrow> nat \<Rightarrow> bool \<Rightarrow> upost list" where
  "received 0 env batch offset final = []"
| "received (Suc fuel) env batch offset final =
     (case query env batch offset of
        Page docs \<Rightarrow>
          if docs = [] then []
          else
            (let final' = (final \<or> length docs < batch);
                 posts = concat (map doc_Posts docs)
             in if posts = [] then received fuel env batch (offset + batch) final'
                else posts @ (if final' then []
                              else received fuel env batch (offset + batch) final'))
      | _ \<Rightarrow> [])"

text \<open>The fields of a stored post that the property speaks of, and their expected
  values for a list of posts admitted from counter value \<open>c\<close> on.\<close>

type_synonym view = "string \<times> int option \<times> bool \<times> nat option \<times> evidence list option"

definition view_of :: "post \<Rightarrow> view" where
  "view_of p = (ArticleId p, OrderNum p, IsOriginal p, RepostOff p, Reposts p)"

fun originals_from :: "int \<Rightarrow> upost list \<Rightarrow> view list" where
  "originals_from c [] = []"
| "originals_from c (u # us) =
     (post_ArticleId u, Some c, True, None, Some []) # originals_from (c + 1) us"

text \<open>
  The outcome of admitting the posts \<open>ups\<close> from state \<open>s\<close> with counter value \<open>c\<close>:
  on normal completion every post has been stored, in order, with the counter and the
  loop variables as expected; when an exception ends the admission, the posts stored so
  far are an initial part of the expected ones.
\<close>

definition admits :: "int \<Rightarrow> state \<Rightarrow> upost list \<Rightarrow> state result \<Rightarrow> bool" where
  "admits c s ups r =
     (case r of
        Done s' \<Rightarrow>
          map view_of (Posts s') = map view_of (Posts s) @ originals_from c ups
          \<and> Counter s' = Some (c + int (length ups))
          \<and> final_batch s' = final_batch s \<and> request_offset s' = request_offset s
      | Raised e s' \<Rightarrow>
          (\<exists>vs. map view_of (Posts s') = map view_of (Posts s) @ vs
                \<and> prefix vs (originals_from c ups)))"

text \<open>The same for a whole run of the loop, whose normal completion says nothing of
  the counter and the loop variables.\<close>

definition stores_received :: "int \<Rightarrow> state \<Rightarrow> upost list \<Rightarrow> state result \<Rightarrow> bool" where
  "stores_received c s ups r \<longleftrightarrow>
     (\<exists>vs. map view_of (Posts (state_of r)) = map view_of (Posts s) @ vs
           \<and> prefix vs (originals_from c ups)
           \<and> (exn_of r = None \<longrightarrow> vs = originals_from c ups))"

text \<open>The test of lines 263-265 that a comparison must pass to classify the candidate.\<close>

definition passes :: "npfloat \<Rightarrow> npfloat \<Rightarrow> int \<Rightarrow> post \<Rightarrow> bool" where
  "passes m ss hs pp \<longleftrightarrow> hs = 0 \<and> np_ge ss (75 / 100) \<and> \<not> np_ge m 2000 \<and> IsOriginal pp"

text \<open>
  A store is well formed when the \<^verbatim>\<open>_id\<close>s of its posts are unique and older than the
  next one to be given out, as MongoDB has it.
\<close>

definition key_of :: "post \<Rightarrow> nat \<times> string" where
  "key_of p = (oid p, ArticleId p)"

definition well_formed_store :: "state \<Rightarrow> bool" where
  "well_formed_store s \<longleftrightarrow>
     distinct (map oid (Posts s)) \<and> (\<forall>p \<in> set (Posts s). oid p < next_oid s)"

definition agrees :: "post \<Rightarrow> state \<Rightarrow> bool" where
  "agrees pp s \<longleftrightarrow> (\<forall>k \<in> set (map key_of (Posts s)). fst k = oid pp \<longrightarrow> snd k = ArticleId pp)"

text \<open>
  The posts of a page that resume mode routes to detection, for the last-seen
  \<^verbatim>\<open>ArticleId\<close> \<open>a\<close>: the posts of the documents in order, up to a document whose
  \<^verbatim>\<open>StartPostId\<close> is \<open>a\<close> or up to the first post whose \<^verbatim>\<open>ArticleId\<close> is \<open>a\<close>. Next to it,
  whether the scan of the page ends with the boundary found in a post, and whether it
  ends with the page marked final.
\<close>

fun routed :: "string \<Rightarrow> document list \<Rightarrow> upost list" where
  "routed a [] = []"
| "routed a (d # ds) =
     (if a = doc_StartPostId d then []
      else if a \<in> set (map post_ArticleId (doc_Posts d))
           then takeWhile (\<lambda>p. post_ArticleId p \<noteq> a) (doc_Posts d)
           else doc_Posts d @ routed a ds)"

fun found_in_post :: "string \<Rightarrow> document list \<Rightarrow> bool" where
  "found_in_post a [] = False"
| "found_in_post a (d # ds) =
     (a \<noteq> doc_StartPostId d \<and>
      (a \<in> set (map post_ArticleId (doc_Posts d)) \<or> found_in_post a ds))"

fun marks_final :: "string \<Rightarrow> document list \<Rightarrow> bool" where
  "marks_final a [] = False"
| "marks_final a (d # ds) =
     (a = doc_StartPostId d \<or>
      (if a \<in> set (map post_ArticleId (doc_Posts d)) then ds \<noteq> [] else marks_final a ds))"

text \<open>
  The outcome of routing the posts \<open>ups\<close> to detection from state \<open>s\<close>: the store stays
  well formed, the posts stored so far are, in order, the old ones followed by an
  initial part of \<open>ups\<close>, and all of \<open>ups\<close> on normal completion.
\<close>

definition detects :: "state \<Rightarrow> upost list \<Rightarrow> state result \<Rightarrow> bool" where
  "detects s ups r \<longleftrightarrow>
     well_formed_store (state_of r) \<and>
     (\<exists>vs. map ArticleId (Posts (state_of r)) = map ArticleId (Posts s) @ vs
           \<and> prefix vs (map post_ArticleId ups)
           \<and> (exn_of r = None \<longrightarrow> vs = map post_ArticleId ups))"

text \<open>
  The state with which \<^verbatim>\<open>run()\<close> enters its loop (lines 146-157), and the state at the
  head of the loop after \<open>n\<close> passes that did not leave it: \<open>None\<close> when one of them
  left the loop.
\<close>

definition run_start :: "state \<Rightarrow> state" where
  "run_start s =
     s\<lparr>Runs := Runs s @ [\<lparr>run_oid = next_oid s, EndProcessTime = None,
                              PostsProcessed = 0, BatchesProcessed = 0\<rparr>],
       next_oid := Suc (next_oid s),
       request_offset := 0, final_batch := False, last_article_found := False,
       posts_processed := 0, batches_processed := 0\<rparr>"

fun pages_done :: "nat \<Rightarrow> env \<Rightarrow> nat \<Rightarrow> nat \<Rightarrow> post option \<Rightarrow> state \<Rightarrow> state option" where
  "pages_done 0 env batch rid last_article s = Some s"
| "pages_done (Suc n) env batch rid last_article s =
     (case query env batch (request_offset s) of
        Page docs \<Rightarrow>
          if length docs = 0 then None
          else
            (let s1 = (if length docs < batch then s\<lparr>final_batch := True\<rparr> else s)
             in if length (filter (\<lambda>doc. length (doc_Posts doc) = 0) docs) = length docs
                then pages_done n env batch rid last_article
                       (s1\<lparr>request_offset := request_offset s1 + batch,
                           batches_processed := batches_processed s1 + 1\<rparr>)
                else
                  (case process_page env rid last_article docs s1 of
                     Raised e s2 \<Rightarrow> None
                   | Done s2 \<Rightarrow>
                       if final_batch s2 then None
                       else pages_done n env batch rid last_article
                              (s2\<lparr>request_offset := request_offset s2 + batch\<rparr>)))
      | _ \<Rightarrow> None)"

text \<open>
  What scikit-image's \<^verbatim>\<open>structural_similarity\<close> does with an image that has a side
  shorter than its window of 7 pixels: it raises \<^verbatim>\<open>ValueError\<close>.
\<close>

definition ssim_needs_window :: "env \<Rightarrow> bool" where
  "ssim_needs_window env \<longleftrightarrow>
     (\<forall>a b. fst (shape a) < 7 \<or> snd (shape a) < 7 \<longrightarrow>
        structural_similarity env a b = Inl ValueError)"

section \<open>Example environments and stores\<close>

text \<open>
  A small concrete upstream and store for evaluating the model. Media data is a string
  of three digits \<open>h w v\<close>, which decodes to the \<open>h \<times> w\<close> image with every pixel \<open>v\<close>;
  the upstream serves a fixed list of documents in pages.
\<close>

definition digits_of :: "string \<Rightarrow> blob option" where
  "digits_of s = Some (map (\<lambda>c. of_char c - 48) s)"

definition flat_image :: "blob \<Rightarrow> image option" where
  "flat_image b = (case b of [h, w, v] \<Rightarrow> Some (replicate h (replicate w v)) | _ \<Rightarrow> None)"

definition rest_of :: "document list \<Rightarrow> nat \<Rightarrow> nat \<Rightarrow> response" where
  "rest_of docs limit offset = Page (take limit (drop offset docs))"

text \<open>An example hash of 64 bits: bit \<open>i\<close> says whether the first pixel is brighter
  than \<open>i\<close>, so that two flat images differ in as many bits as their pixel values.\<close>

definition thermometer :: "image \<Rightarrow> bool list" where
  "thermometer im = map (\<lambda>i. i < (case concat im of [] \<Rightarrow> 0 | v # _ \<Rightarrow> v)) [0..<64]"

text \<open>
  An example structural similarity with the window of scikit-image, whose default
  \<^verbatim>\<open>win_size\<close> is 7: images of different shapes, or with a side shorter than the
  window, raise \<^verbatim>\<open>ValueError\<close>; equal images score 1, others 0.
\<close>

definition windowed_ssim :: "image \<Rightarrow> image \<Rightarrow> exn + npfloat" where
  "windowed_ssim a b =
     (if shape a \<noteq> shape b \<or> fst (shape a) < 7 \<or> snd (shape a) < 7 then Inl ValueError
      else Inr (Fin (if a = b then 1 else 0)))"

definition example_env :: "document list \<Rightarrow> env" where
  "example_env docs =
     \<lparr>query = rest_of docs, server_info = True, b64decode = digits_of, imdecode = flat_image,
      resize = (\<lambda>im (w, h). replicate h (replicate w 0)),
      structural_similarity = windowed_ssim,
      hashfunc = thermometer\<rparr>"

text \<open>A later run on the store that an earlier run has left, after \<^verbatim>\<open>__init__\<close>.\<close>

definition rerun :: "nat \<Rightarrow> env \<Rightarrow> nat \<Rightarrow> state result \<Rightarrow> state result option" where
  "rerun fuel env batch r = run fuel env batch (init (state_of r))"

definition fresh_store :: state where
  "fresh_store = \<lparr>Posts = [], Counter = None, Blobs = [], Runs = [], next_oid = 0,
     request_offset = 0, final_batch = False, last_article_found = False,
     posts_processed = 0, batches_processed = 0\<rparr>"

definition upost_of :: "string \<Rightarrow> string \<Rightarrow> upost" where
  "upost_of a m = \<lparr>post_ArticleId = a, post_MediaData = m\<rparr>"

definition three_posts :: "document list" where
  "three_posts = [\<lparr>doc_StartPostId = ''a'', doc_Posts =
      [upost_of ''a'' ''225'', upost_of ''b'' ''227'', upost_of ''c'' ''339'']\<rparr>]"

text \<open>A first upload of one post, and a later upstream with a new post in front of it
  that carries the same image.\<close>

definition first_upload :: "document list" where
  "first_upload = [\<lparr>doc_StartPostId = ''a'', doc_Posts = [upost_of ''a'' ''225'']\<rparr>]"

definition second_upload :: "document list" where
  "second_upload = [\<lparr>doc_StartPostId = ''b'', doc_Posts =
      [upost_of ''b'' ''225'', upost_of ''a'' ''225'']\<rparr>]"

text \<open>A store that holds originals written by the detection path (key \<^verbatim>\<open>MediaId\<close>).\<close>

definition original_of :: "nat \<Rightarrow> string \<Rightarrow> nat \<Rightarrow> nat \<times> nat \<Rightarrow> post" where
  "original_of i a m d =
     \<lparr>oid = i, ArticleId = a, OrderNum = None, RunId = 0, Dim = d, Media = None,
      MediaId = Some m, IsOriginal = True, RepostOff = None, Reposts = Some []\<rparr>"

definition store_of :: "post list \<Rightarrow> blob list \<Rightarrow> state" where
  "store_of ps bs = \<lparr>Posts = ps, Counter = Some 1, Blobs = bs, Runs = [],
     next_oid = Suc (length ps),
     request_offset = 0, final_batch = False, last_article_found = False,
     posts_processed = 0, batches_processed = 0\<rparr>"

definition detected_store :: state where
  "detected_store = store_of [original_of 1 ''a'' 0 (2, 2)] [[2, 2, 5]]"

definition wide_upload :: "document list" where
  "wide_upload = [\<lparr>doc_StartPostId = ''b'', doc_Posts =
      [upost_of ''b'' ''245'', upost_of ''a'' ''225'']\<rparr>]"


text \<open>An upstream of three documents, to be read in pages of two.\<close>

definition paged_upload :: "document list" where
  "paged_upload =
     [\<lparr>doc_StartPostId = ''a'', doc_Posts = [upost_of ''a'' ''225'', upost_of ''b'' ''227'']\<rparr>,
      \<lparr>doc_StartPostId = ''x'', doc_Posts = []\<rparr>,
      \<lparr>doc_StartPostId = ''c'', doc_Posts = [upost_of ''c'' ''339'']\<rparr>]"


text \<open>The scenario of a resumed run whose last-seen article is \<^verbatim>\<open>42\<close>: one document
  with the posts 41, 42, 43, 44, read in pages of one document.\<close>

definition boundary_store :: state where
  "boundary_store = store_of [original_of 1 ''42'' 0 (1, 1)] [[1, 1, 5]]"

definition boundary_upload :: "document list" where
  "boundary_upload = [\<lparr>doc_StartPostId = ''41'', doc_Posts =
      [upost_of ''41'' ''117'', upost_of ''42'' ''115'', upost_of ''43'' ''118'',
       upost_of ''44'' ''119'']\<rparr>]"

text \<open>The same scenario on a store filled by a first run: the upstream first serves
  post 42 alone, then a document that starts with it.\<close>

definition upload_42 :: "document list" where
  "upload_42 = [\<lparr>doc_StartPostId = ''s'', doc_Posts = [upost_of ''42'' ''225'']\<rparr>]"

definition upload_42_44 :: "document list" where
  "upload_42_44 = [\<lparr>doc_StartPostId = ''t'', doc_Posts =
      [upost_of ''42'' ''225'', upost_of ''43'' ''227'', upost_of ''44'' ''229'']\<rparr>]"

text \<open>A first upload of one post with an \<open>8 \<times> 8\<close> image, a later upstream with a new
  post in front of it that carries the same image, and a store that holds the first
  post as an original written by the detection path.\<close>

definition first_upload_8x8 :: "document list" where
  "first_upload_8x8 = [\<lparr>doc_StartPostId = ''a'', doc_Posts = [upost_of ''a'' ''885'']\<rparr>]"

definition second_upload_8x8 :: "document list" where
  "second_upload_8x8 = [\<lparr>doc_StartPostId = ''b'', doc_Posts =
      [upost_of ''b'' ''885'', upost_of ''a'' ''885'']\<rparr>]"

definition detected_store_8x8 :: state where
  "detected_store_8x8 = store_of [original_of 1 ''a'' 0 (8, 8)] [[8, 8, 5]]"

section \<open>Hash distance\<close>

lemma hash_sub_nonneg: "hash_sub h1 h2 = Inr d \<Longrightarrow> 0 \<le> d"
  by (auto simp: hash_sub_def split: if_splits)

lemma img_hash_clamp:
  "hash_sub (func a) (func b) = Inr d \<Longrightarrow> img_hash func c a b = Inr (max 0 (\<bar>d\<bar> - c))"
  by (auto simp: img_hash_def Let_def hash_sub_def max_def split: if_splits)

lemma positive_hash_no_classification:
  assumes "MediaId pp = Some k" and "k < length (Blobs s)"
    and "scale_images env im (imdecode env (Blobs s ! k)) (2 / 100) = Inr (Some a, Some b)"
    and "img_hash (hashfunc env) 10 a b = Inr hs" and "0 < hs"
  shows "snd (state_of (compare_pp env pp (im, md, s))) = (md, s)"
  using assms by (auto simp: compare_pp_def split: sum.splits bool.splits)

text \<open>
  Claim C8. For two hashes of the same size, whose difference is \<open>d\<close>, and every cutoff
  \<open>c\<close>, \<^verbatim>\<open>_img_hash\<close> returns exactly \<open>max 0 (\<bar>d\<bar> - c)\<close>; the result is a non-negative
  integer, it is 0 exactly when the difference is at most the cutoff, and a comparison
  whose hash distance is positive leaves the candidate's draft and the store as they
  were: the pair is not classified.
\<close>

theorem hash_distance_clamped:
  assumes "hash_sub (func image_one) (func image_two) = Inr d"
  shows "0 \<le> d
       \<and> img_hash func c image_one image_two = Inr (max 0 (\<bar>d\<bar> - c))
       \<and> 0 \<le> max 0 (\<bar>d\<bar> - c)
       \<and> (max 0 (\<bar>d\<bar> - c) = 0 \<longleftrightarrow> \<bar>d\<bar> \<le> c)
       \<and> (\<forall>env pp k s im a b hs md.
            MediaId pp = Some k \<and> k < length (Blobs s)
            \<and> scale_images env im (imdecode env (Blobs s ! k)) (2 / 100) = Inr (Some a, Some b)
            \<and> img_hash (hashfunc env) 10 a b = Inr hs \<and> 0 < hs
            \<longrightarrow> snd (state_of (compare_pp env pp (im, md, s))) = (md, s))"
proof -
  have "img_hash func c image_one image_two = Inr (max 0 (\<bar>d\<bar> - c))"
    using assms by (rule img_hash_clamp)
  moreover have "(max 0 (\<bar>d\<bar> - c) = 0 \<longleftrightarrow> \<bar>d\<bar> \<le> c)" by auto
  moreover have "0 \<le> d"
    using assms by (rule hash_sub_nonneg)
  ultimately show ?thesis
    using positive_hash_no_classification by auto
qed

theorem hash_distance_clamped_witness:
  "hash_sub (thermometer [[5]]) (thermometer [[20]]) = Inr 15
   \<and> img_hash thermometer 10 [[5]] [[20]] = Inr (max 0 (\<bar>15\<bar> - 10))
   \<and> MediaId (original_of 1 ''a'' 0 (1, 1)) = Some 0
   \<and> 0 < length (Blobs (store_of [original_of 1 ''a'' 0 (1, 1)] [[1, 1, 20]]))
   \<and> scale_images (example_env []) (Some [[5]])
        (imdecode (example_env [])
           (Blobs (store_of [original_of 1 ''a'' 0 (1, 1)] [[1, 1, 20]]) ! 0)) (2 / 100)
       = Inr (Some [[5]], Some [[20]])
   \<and> img_hash (hashfunc (example_env [])) 10 [[5]] [[20]] = Inr 5
   \<and> snd (state_of (compare_pp (example_env []) (original_of 1 ''a'' 0 (1, 1))
         (Some [[5]], original_of 0 ''b'' 1 (1, 1),
          store_of [original_of 1 ''a'' 0 (1, 1)] [[1, 1, 20]])))
       = (original_of 0 ''b'' 1 (1, 1), store_of [original_of 1 ''a'' 0 (1, 1)] [[1, 1, 20]])"
proof -
  have h: "hash_sub (thermometer [[5]]) (thermometer [[20]]) = Inr 15"
    by code_simp
  have m: "MediaId (original_of 1 ''a'' 0 (1, 1)) = Some 0"
    by (simp add: original_of_def)
  have l: "0 < length (Blobs (store_of [original_of 1 ''a'' 0 (1, 1)] [[1, 1, 20]]))"
    by (simp add: store_of_def)
  have sc: "scale_images (example_env []) (Some [[5]])
        (imdecode (example_env [])
           (Blobs (store_of [original_of 1 ''a'' 0 (1, 1)] [[1, 1, 20]]) ! 0)) (2 / 100)
       = Inr (Some [[5]], Some [[20]])"
    by code_simp
  have ih: "img_hash (hashfunc (example_env [])) 10 [[5]] [[20]] = Inr 5"
    by code_simp
  note t = hash_distance_clamped [OF h, of 10]
  from t have "img_hash thermometer 10 [[5]] [[20]] = Inr (max 0 (\<bar>15\<bar> - 10))"
    by blast
  moreover from t m l sc ih
  have "snd (state_of (compare_pp (example_env []) (original_of 1 ''a'' 0 (1, 1))
         (Some [[5]], original_of 0 ''b'' 1 (1, 1),
          store_of [original_of 1 ''a'' 0 (1, 1)] [[1, 1, 20]])))
       = (original_of 0 ''b'' 1 (1, 1), store_of [original_of 1 ''a'' 0 (1, 1)] [[1, 1, 20]])"
    by (metis zero_less_numeral)
  ultimately show ?thesis using h m l sc ih by blast
qed

section \<open>Scale normalization\<close>

text \<open>
  Two images of different shapes whose rows hold at least two pixels never come back
  from \<^verbatim>\<open>_scale_images\<close>: it raises \<^verbatim>\<open>IndexError\<close> when one of them has a single row, and
  \<^verbatim>\<open>ValueError\<close> otherwise.
\<close>

lemma truth_many: "2 \<le> length bs \<Longrightarrow> truth bs = Inl ValueError"
  by (cases bs rule: truth.cases) auto

lemma scale_images_different_shapes:
  assumes "shape one \<noteq> shape two"
    and "\<forall>r \<in> set one. length r = w1" and "\<forall>r \<in> set two. length r = w2"
    and "2 \<le> w1" and "2 \<le> w2"
  shows "scale_images env (Some one) (Some two) tol = Inl IndexError
       \<or> scale_images env (Some one) (Some two) tol = Inl ValueError"
proof (cases "length one < 2 \<or> length two < 2")
  case True
  with assms(1) show ?thesis by (simp add: scale_images_def)
next
  case False
  then have "0 < length one" "1 < length one" "0 < length two" "1 < length two"
    by auto
  then have "one ! 0 \<in> set one" "one ! 1 \<in> set one" "two ! 0 \<in> set two" "two ! 1 \<in> set two"
    by (simp_all only: nth_mem)
  then have l1: "length (map2 np_div (one ! 0) (one ! 1)) = w1"
    and l2: "length (map2 np_div (two ! 0) (two ! 1)) = w2"
    using assms(2,3) by simp_all
  show ?thesis
  proof (cases "w1 = w2")
    case True
    then obtain d where b: "broadcast np_sub (map2 np_div (one ! 0) (one ! 1))
                                 (map2 np_div (two ! 0) (two ! 1)) = Inr d"
      and "length d = w1"
      using l1 l2 by (auto simp: broadcast_def)
    then have "truth (map (\<lambda>x. np_ge (np_abs x) tol) d) = Inl ValueError"
      using assms(4) by (simp add: truth_many)
    with b False assms(1) show ?thesis by (simp add: scale_images_def)
  next
    case diff: False
    then have "broadcast np_sub (map2 np_div (one ! 0) (one ! 1))
                                 (map2 np_div (two ! 0) (two ! 1)) = Inl ValueError"
      using l1 l2 assms(4,5) by (auto simp: broadcast_def)
    with False assms(1) show ?thesis by (simp add: scale_images_def)
  qed
qed

text \<open>
  Claim C7, at three pairs of images with different dimensions. A \<open>2 \<times> 2\<close> and a
  \<open>2 \<times> 4\<close> image differ in aspect ratio by much more than the tolerance, a \<open>2 \<times> 2\<close> and
  a \<open>4 \<times> 4\<close> image have the same aspect ratio, a \<open>2 \<times> 2\<close> and a \<open>4 \<times> 2\<close> image share
  the width: in each case \<^verbatim>\<open>_scale_images\<close> raises \<^verbatim>\<open>ValueError\<close>, where the claim has it
  return \<^verbatim>\<open>None\<close> or a downscaled pair. Images of identical dimensions come back
  unchanged.
\<close>

theorem scale_images_raises_on_different_shapes:
  "scale_images env (Some [[10, 20], [30, 40]]) (Some [[1, 2, 3, 4], [5, 6, 7, 8]]) (2 / 100)
     = Inl ValueError
   \<and> scale_images env (Some [[10, 20], [30, 40]])
       (Some [[1, 2, 3, 4], [5, 6, 7, 8], [1, 2, 3, 4], [5, 6, 7, 8]]) (2 / 100)
     = Inl ValueError
   \<and> scale_images env (Some [[10, 20], [30, 40]])
       (Some [[10, 20], [30, 40], [10, 20], [30, 40]]) (2 / 100)
     = Inl ValueError
   \<and> scale_images env (Some [[10, 20], [30, 40]]) (Some [[1, 2], [3, 4]]) (2 / 100)
     = Inr (Some [[10, 20], [30, 40]], Some [[1, 2], [3, 4]])"
  by (simp add: scale_images_def shape_def broadcast_def np_div_def)

section \<open>The guard after scale normalization\<close>

lemma not_im_many_pixels: "1 < length (concat a) \<Longrightarrow> not_im (Some a) = Inl ValueError"
proof -
  assume "1 < length (concat a)"
  then obtain x y zs where "concat a = x # y # zs"
    by (cases "concat a"; cases "tl (concat a)") auto
  then show ?thesis
    by (simp add: not_im_def image_truth_def)
qed

lemma compare_pp_guard:
  assumes "MediaId pp = Some k" and "k < length (Blobs s)"
    and "scale_images env im (imdecode env (Blobs s ! k)) (2 / 100) = Inr (Some a, im0)"
    and "1 < length (concat a)"
  shows "compare_pp env pp (im, md, s) = Raised ValueError (Some a, md, s)"
  using assms not_im_many_pixels [of a] by (simp add: compare_pp_def)

lemma scan_corpus_append:
  "scan_corpus env (pps @ qs) c =
     (case scan_corpus env pps c of
        Done c1 \<Rightarrow> scan_corpus env qs c1
      | Raised e c1 \<Rightarrow> Raised e c1)"
  by (induction pps arbitrary: c) (auto split: result.splits)


section \<open>Exclusivity of the two roles\<close>

lemma replace_one_set: "set (replace_one i q ps) \<subseteq> insert q (set ps)"
  by (induction ps) auto

lemma classify_exclusive:
  assumes "exclusive pp" and "IsOriginal pp" and "all_exclusive s"
    and "state_of (classify pp m ss hs (im, md, s)) = (im', md', s')"
  shows "exclusive md' \<and> all_exclusive s'"
proof (cases "Reposts pp")
  case None
  with assms(4) have "md' = md\<lparr>IsOriginal := False, RepostOff := Some (oid pp), Reposts := None\<rparr>"
    and "s' = s" by (auto simp: classify_def)
  with assms(3) show ?thesis by (simp add: exclusive_def)
next
  case (Some evs)
  define pp' where "pp' = pp\<lparr>Reposts := Some (evs @
       [\<lparr>ev_ArticleId = ArticleId md, ev_mse = m, ev_ssim = ss, ev_hs = hs, ev_certainty = 1\<rparr>])\<rparr>"
  have e: "exclusive pp'"
    using assms(1,2) by (simp add: exclusive_def pp'_def)
  from Some assms(4)
  have md': "md' = md\<lparr>IsOriginal := False, RepostOff := Some (oid pp), Reposts := None\<rparr>"
    and s': "s' = s\<lparr>Posts := replace_one (oid pp) pp' (Posts s)\<rparr>"
    by (auto simp: classify_def pp'_def)
  have "\<forall>p \<in> set (replace_one (oid pp) pp' (Posts s)). exclusive p"
    using replace_one_set [of "oid pp" pp' "Posts s"] e assms(3)
    by (auto simp: all_exclusive_def)
  then have "all_exclusive s'" by (simp add: s' all_exclusive_def)
  moreover have "exclusive md'" by (simp add: md' exclusive_def)
  ultimately show ?thesis by simp
qed

lemma compare_pp_exclusive:
  assumes "exclusive pp" and "exclusive md" and "all_exclusive s"
    and "state_of (compare_pp env pp (im, md, s)) = (im', md', s')"
  shows "exclusive md' \<and> all_exclusive s'"
  using assms classify_exclusive [of pp s]
  by (auto simp: compare_pp_def split: option.splits if_splits sum.splits bool.splits prod.splits)

lemma scan_corpus_exclusive:
  assumes "\<forall>pp \<in> set pps. exclusive pp" and "exclusive md" and "all_exclusive s"
    and "state_of (scan_corpus env pps (im, md, s)) = (im', md', s')"
  shows "exclusive md' \<and> all_exclusive s'"
  using assms
proof (induction pps arbitrary: im md s)
  case Nil
  then show ?case by simp
next
  case (Cons pp pps)
  obtain im1 md1 s1 where c: "state_of (compare_pp env pp (im, md, s)) = (im1, md1, s1)"
    by (metis prod_cases3)
  with Cons.prems have e: "exclusive md1 \<and> all_exclusive s1"
    using compare_pp_exclusive [of pp md s env im im1 md1 s1] by simp
  show ?case
  proof (cases "compare_pp env pp (im, md, s)")
    case (Done c1)
    with c have "c1 = (im1, md1, s1)" by simp
    with Done Cons.prems e Cons.IH [of md1 s1 im1] show ?thesis by simp
  next
    case (Raised x c1)
    with c e Cons.prems(4) show ?thesis by simp
  qed
qed

lemma insert_one_exclusive: "exclusive md \<Longrightarrow> all_exclusive s \<Longrightarrow> all_exclusive (insert_one md s)"
  by (auto simp: insert_one_def all_exclusive_def exclusive_def)

lemma detect_exclusive:
  assumes "all_exclusive s"
  shows "all_exclusive (state_of (detect env rid p s))"
proof (cases "b64decode env (post_MediaData p)")
  case None
  with assms show ?thesis by (simp add: detect_def)
next
  case (Some d)
  let ?s1 = "s\<lparr>Blobs := Blobs s @ [d]\<rparr>"
  have s1: "all_exclusive ?s1" using assms by (simp add: all_exclusive_def)
  show ?thesis
  proof (cases "imdecode env d")
    case None
    with Some s1 show ?thesis by (simp add: detect_def)
  next
    case (Some i)
    let ?md = "\<lparr>oid = 0, ArticleId = post_ArticleId p, OrderNum = None,
                             RunId = rid, Dim = shape i, Media = None,
                             MediaId = Some (length (Blobs s)), IsOriginal = True,
                             RepostOff = None, Reposts = Some []\<rparr>"
    have md: "exclusive ?md" by (simp add: exclusive_def)
    obtain im' md' s' where c: "state_of (scan_corpus env (Posts ?s1) (Some i, ?md, ?s1)) = (im', md', s')"
      by (metis prod_cases3)
    have "\<forall>pp \<in> set (Posts ?s1). exclusive pp" using s1 by (simp add: all_exclusive_def)
    then have e: "exclusive md' \<and> all_exclusive s'"
      using scan_corpus_exclusive [OF _ md s1 c] by simp
    show ?thesis
    proof (cases "scan_corpus env (Posts ?s1) (Some i, ?md, ?s1)")
      case (Done c1)
      with c have "c1 = (im', md', s')" by simp
      with Done Some \<open>b64decode env (post_MediaData p) = Some d\<close> e show ?thesis
        by (simp add: detect_def insert_one_exclusive)
    next
      case (Raised x c1)
      with c have "c1 = (im', md', s')" by simp
      with Raised Some \<open>b64decode env (post_MediaData p) = Some d\<close> e show ?thesis
        by (simp add: detect_def)
    qed
  qed
qed

lemma bulk_admit_exclusive:
  "all_exclusive s \<Longrightarrow> all_exclusive (state_of (bulk_admit env rid p s))"
  by (auto simp: bulk_admit_def Let_def all_exclusive_def insert_one_def exclusive_def
      split: option.splits)

lemma save_posts_exclusive:
  "all_exclusive s \<Longrightarrow> all_exclusive (state_of (save_posts env rid ps s))"
proof (induction ps arbitrary: s)
  case Nil then show ?case by simp
next
  case (Cons p ps)
  then show ?case
    using bulk_admit_exclusive [of s env rid p]
    by (cases "bulk_admit env rid p s") auto
qed

lemma save_docs_exclusive:
  "all_exclusive s \<Longrightarrow> all_exclusive (state_of (save_docs env rid ds s))"
proof (induction ds arbitrary: s)
  case Nil then show ?case by simp
next
  case (Cons d ds)
  then show ?case
    using save_posts_exclusive [of s env rid "doc_Posts d"]
    by (cases "save_posts env rid (doc_Posts d) s") auto
qed

lemma resume_posts_exclusive:
  "all_exclusive s \<Longrightarrow> all_exclusive (state_of (resume_posts env rid a ps s))"
proof (induction ps arbitrary: s)
  case Nil then show ?case by simp
next
  case (Cons p ps)
  then show ?case
    using detect_exclusive [of s env rid p]
    by (cases "detect env rid p s") (auto simp: all_exclusive_def)
qed

lemma resume_docs_exclusive:
  "all_exclusive s \<Longrightarrow> all_exclusive (state_of (resume_docs env rid a ds s))"
proof (induction ds arbitrary: s)
  case Nil then show ?case by simp
next
  case (Cons d ds)
  then show ?case
    using resume_posts_exclusive [of s env rid a "doc_Posts d"]
    by (cases "resume_posts env rid a (doc_Posts d) s") (auto simp: all_exclusive_def)
qed

lemma process_page_exclusive:
  "all_exclusive s \<Longrightarrow> all_exclusive (state_of (process_page env rid la docs s))"
  by (cases la) (simp_all add: process_page_def Let_def save_docs_exclusive resume_docs_exclusive)

lemma run_loop_exclusive:
  "all_exclusive s \<Longrightarrow> run_loop fuel env batch rid la s = Some r \<Longrightarrow> all_exclusive (state_of r)"
proof (induction fuel arbitrary: s)
  case 0 then show ?case by simp
next
  case (Suc fuel)
  show ?case
  proof (cases "query env batch (request_offset s)")
    case TransportError
    with Suc.prems show ?thesis by auto
  next
    case BadJson
    with Suc.prems show ?thesis by auto
  next
    case (Page docs)
    define s1 where "s1 = (if length docs < batch then s\<lparr>final_batch := True\<rparr> else s)"
    have s1: "all_exclusive s1" using Suc.prems(1) by (simp add: all_exclusive_def s1_def)
    have pp: "all_exclusive (state_of (process_page env rid la docs s1))"
      using s1 by (rule process_page_exclusive)
    consider (empty) "length docs = 0"
      | (filler) "length docs \<noteq> 0" "length (filter (\<lambda>doc. length (doc_Posts doc) = 0) docs) = length docs"
      | (page) "length docs \<noteq> 0" "length (filter (\<lambda>doc. length (doc_Posts doc) = 0) docs) \<noteq> length docs"
      by blast
    then show ?thesis
    proof cases
      case empty
      with Suc.prems Page show ?thesis by auto
    next
      case filler
      let ?s2 = "s1\<lparr>request_offset := request_offset s1 + batch,
                           batches_processed := batches_processed s1 + 1\<rparr>"
      have "all_exclusive ?s2" using s1 by (simp add: all_exclusive_def)
      moreover have "run_loop fuel env batch rid la ?s2 = Some r"
        using Suc.prems(2) Page filler by (simp add: s1_def Let_def)
      ultimately show ?thesis by (rule Suc.IH)
    next
      case page
      show ?thesis
      proof (cases "process_page env rid la docs s1")
        case (Raised e s2)
        with Suc.prems(2) Page page have "r = Raised e s2" by (simp add: s1_def Let_def)
        with pp Raised show ?thesis by simp
      next
        case (Done s2)
        show ?thesis
        proof (cases "final_batch s2")
          case True
          with Suc.prems(2) Page page Done have "r = Done s2" by (simp add: s1_def Let_def)
          with pp Done show ?thesis by simp
        next
          case False
          let ?s3 = "s2\<lparr>request_offset := request_offset s2 + batch\<rparr>"
          have "all_exclusive ?s3" using pp Done by (simp add: all_exclusive_def)
          moreover have "run_loop fuel env batch rid la ?s3 = Some r"
            using Suc.prems(2) Page page Done False by (simp add: s1_def Let_def)
          ultimately show ?thesis by (rule Suc.IH)
        qed
      qed
    qed
  qed
qed

lemma state_of_handler: "state_of (handler r) = state_of r"
  by (cases r rule: handler.cases) auto

lemma run_exclusive:
  assumes "all_exclusive s" and "run fuel env batch s = Some r"
  shows "all_exclusive (state_of r)"
proof (cases "query env 1 0 = TransportError \<or> \<not> server_info env")
  case True
  with assms show ?thesis by (auto simp: run_def split: if_splits)
next
  case False
  define s1 where "s1 = s\<lparr>Runs := Runs s @ [\<lparr>run_oid = next_oid s, EndProcessTime = None,
                                        PostsProcessed = 0, BatchesProcessed = 0\<rparr>],
                    next_oid := Suc (next_oid s),
                    request_offset := 0, final_batch := False, last_article_found := False,
                    posts_processed := 0, batches_processed := 0\<rparr>"
  have s1: "all_exclusive s1"
    using assms(1) by (simp add: all_exclusive_def s1_def)
  from False assms(2) obtain z
    where z: "run_loop fuel env batch (next_oid s) (find_one_by_OrderNum (Posts s)) s1 = Some z"
      and r: "r = handler z"
    by (auto simp: run_def Let_def s1_def)
  from s1 z have "all_exclusive (state_of z)" by (rule run_loop_exclusive)
  with r show ?thesis by (simp add: state_of_handler)
qed

text \<open>
  Claim C9. If every stored post satisfies the exclusivity of original and repost
  before \<^verbatim>\<open>run()\<close>, then so does every post in the store that \<^verbatim>\<open>run()\<close> leaves, whether it
  returns or raises: the records inserted by the bulk path and by the detection path
  satisfy it, and so does an original to which evidence has been appended.
\<close>

theorem exclusivity_preserved:
  assumes "all_exclusive s" and "run fuel env batch s = Some r"
  shows "all_exclusive (state_of r)"
  using assms by (rule run_exclusive)

theorem exclusivity_preserved_witness:
  "all_exclusive (init fresh_store)
   \<and> (\<exists>r1 r2. run 1 (example_env first_upload) 5 (init fresh_store) = Some r1
          \<and> map IsOriginal (Posts (state_of r1)) = [True]
          \<and> all_exclusive (init (state_of r1))
          \<and> rerun 1 (example_env second_upload) 5 r1 = Some r2
          \<and> all_exclusive (state_of r2))"
proof -
  have 1: "all_exclusive (init fresh_store)"
    by (simp add: all_exclusive_def init_def fresh_store_def)
  have "map_option (map IsOriginal \<circ> Posts \<circ> state_of)
          (run 1 (example_env first_upload) 5 (init fresh_store)) = Some [True]"
    by code_simp
  then obtain r1 where 2: "run 1 (example_env first_upload) 5 (init fresh_store) = Some r1"
    and 3: "map IsOriginal (Posts (state_of r1)) = [True]"
    by auto
  have "all_exclusive (state_of r1)"
    using 1 2 by (rule exclusivity_preserved)
  then have 4: "all_exclusive (init (state_of r1))"
    by (simp add: all_exclusive_def init_def)
  have "map_option exn_of
          (Option.bind (run 1 (example_env first_upload) 5 (init fresh_store))
             (rerun 1 (example_env second_upload) 5)) = Some (Some KeyError)"
    by code_simp
  then obtain r2 where 5: "rerun 1 (example_env second_upload) 5 r1 = Some r2"
    using 2 by auto
  then have "run 1 (example_env second_upload) 5 (init (state_of r1)) = Some r2"
    by (simp add: rerun_def)
  with 4 have "all_exclusive (state_of r2)"
    by (rule exclusivity_preserved)
  with 1 2 3 4 5 show ?thesis by (intro conjI exI [of _ r1] exI [of _ r2])
qed

section \<open>Runs without a stored post\<close>

lemma originals_from_append:
  "originals_from c (us @ vs) = originals_from c us @ originals_from (c + int (length us)) vs"
  by (induction us arbitrary: c) (auto simp: algebra_simps)

lemma bulk_admit_admits:
  assumes "Counter s = Some c"
  shows "admits c s [p] (bulk_admit env rid p s)"
  using assms
  by (auto simp: admits_def bulk_admit_def Let_def insert_one_def view_of_def
      split: option.splits)

lemma admits_step:
  assumes "admits c s us r1"
    and "\<And>s1. r1 = Done s1 \<Longrightarrow> admits (c + int (length us)) s1 vs (f s1)"
  shows "admits c s (us @ vs) (case r1 of Done s1 \<Rightarrow> f s1 | Raised e s1 \<Rightarrow> Raised e s1)"
proof (cases r1)
  case (Raised e s1)
  with assms(1) show ?thesis
    by (auto simp: admits_def originals_from_append)
next
  case (Done s1)
  with assms(1) have 1: "map view_of (Posts s1) = map view_of (Posts s) @ originals_from c us"
    and 2: "Counter s1 = Some (c + int (length us))"
    and 3: "final_batch s1 = final_batch s" "request_offset s1 = request_offset s"
    by (auto simp: admits_def)
  from assms(2) [OF Done] have a: "admits (c + int (length us)) s1 vs (f s1)" .
  show ?thesis
  proof (cases "f s1")
    case (Done s2)
    with a 1 2 3 \<open>r1 = Done s1\<close> show ?thesis
      by (auto simp: admits_def originals_from_append algebra_simps)
  next
    case (Raised e s2)
    with a obtain ws where "map view_of (Posts s2) = map view_of (Posts s1) @ ws"
      and "prefix ws (originals_from (c + int (length us)) vs)"
      by (auto simp: admits_def)
    with 1 Raised \<open>r1 = Done s1\<close> show ?thesis
      by (auto simp: admits_def originals_from_append intro!: exI [of _ "originals_from c us @ ws"])
  qed
qed

lemma save_posts_admits:
  "Counter s = Some c \<Longrightarrow> admits c s ps (save_posts env rid ps s)"
proof (induction ps arbitrary: s c)
  case Nil
  then show ?case by (simp add: admits_def)
next
  case (Cons p ps)
  have "admits c s ([p] @ ps)
          (case bulk_admit env rid p s of Done s1 \<Rightarrow> save_posts env rid ps s1
           | Raised e s1 \<Rightarrow> Raised e s1)"
  proof (rule admits_step)
    show "admits c s [p] (bulk_admit env rid p s)"
      using Cons.prems by (rule bulk_admit_admits)
  next
    fix s1 assume "bulk_admit env rid p s = Done s1"
    then have "Counter s1 = Some (c + int (length [p]))"
      using bulk_admit_admits [OF Cons.prems, of p env rid] by (simp add: admits_def)
    then show "admits (c + int (length [p])) s1 ps (save_posts env rid ps s1)"
      by (rule Cons.IH)
  qed
  then show ?case by simp
qed

lemma save_docs_admits:
  "Counter s = Some c \<Longrightarrow> admits c s (concat (map doc_Posts ds)) (save_docs env rid ds s)"
proof (induction ds arbitrary: s c)
  case Nil
  then show ?case by (simp add: admits_def)
next
  case (Cons d ds)
  have "admits c s (doc_Posts d @ concat (map doc_Posts ds))
          (case save_posts env rid (doc_Posts d) s of Done s1 \<Rightarrow> save_docs env rid ds s1
           | Raised e s1 \<Rightarrow> Raised e s1)"
  proof (rule admits_step)
    show "admits c s (doc_Posts d) (save_posts env rid (doc_Posts d) s)"
      using Cons.prems by (rule save_posts_admits)
  next
    fix s1 assume "save_posts env rid (doc_Posts d) s = Done s1"
    then have "Counter s1 = Some (c + int (length (doc_Posts d)))"
      using save_posts_admits [OF Cons.prems, of "doc_Posts d" env rid] by (simp add: admits_def)
    then show "admits (c + int (length (doc_Posts d))) s1 (concat (map doc_Posts ds))
                 (save_docs env rid ds s1)"
      by (rule Cons.IH)
  qed
  then show ?case by simp
qed

lemma concat_with_posts:
  "concat (map doc_Posts (filter (\<lambda>doc. doc_Posts doc \<noteq> []) docs)) = concat (map doc_Posts docs)"
  by (induction docs) auto

lemma all_filler:
  "(length (filter (\<lambda>doc. doc_Posts doc = []) docs) = length docs)
     \<longleftrightarrow> concat (map doc_Posts docs) = []"
proof
  assume "length (filter (\<lambda>doc. doc_Posts doc = []) docs) = length docs"
  then have "\<forall>d \<in> set docs. doc_Posts d = []"
    using length_filter_less [of _ docs "\<lambda>doc. doc_Posts doc = []"] by fastforce
  then show "concat (map doc_Posts docs) = []" by simp
next
  assume "concat (map doc_Posts docs) = []"
  then have "filter (\<lambda>doc. doc_Posts doc = []) docs = docs" by (simp add: filter_id_conv)
  then show "length (filter (\<lambda>doc. doc_Posts doc = []) docs) = length docs" by simp
qed

lemma process_page_admits:
  assumes "Counter s = Some c"
  shows "admits c s (concat (map doc_Posts docs)) (process_page env rid None docs s)"
  using save_docs_admits [OF assms, of "filter (\<lambda>doc. doc_Posts doc \<noteq> []) docs" env rid]
  by (simp add: process_page_def concat_with_posts)

lemma stores_received_same:
  "Posts s' = Posts s \<Longrightarrow> stores_received c s' ups r \<Longrightarrow> stores_received c s ups r"
  by (simp add: stores_received_def)

lemma stores_received_extend:
  assumes "map view_of (Posts s2) = map view_of (Posts s) @ originals_from c us"
    and "stores_received (c + int (length us)) s2 ws r"
  shows "stores_received c s (us @ ws) r"
proof -
  from assms(2) obtain vs where
    1: "map view_of (Posts (state_of r)) = map view_of (Posts s2) @ vs"
    and 2: "prefix vs (originals_from (c + int (length us)) ws)"
    and 3: "exn_of r = None \<longrightarrow> vs = originals_from (c + int (length us)) ws"
    unfolding stores_received_def by (elim exE conjE)
  have a: "map view_of (Posts (state_of r)) = map view_of (Posts s) @ (originals_from c us @ vs)"
    using 1 assms(1) by simp
  have b: "prefix (originals_from c us @ vs) (originals_from c (us @ ws))"
    using 2 by (simp add: originals_from_append)
  have c: "exn_of r = None \<longrightarrow> originals_from c us @ vs = originals_from c (us @ ws)"
    using 3 by (simp add: originals_from_append)
  show ?thesis
    unfolding stores_received_def
    by (intro exI [of _ "originals_from c us @ vs"] conjI a b c)
qed

lemma stores_received_raised:
  assumes "admits c s us (Raised e s2)"
  shows "stores_received c s (us @ ws) (Raised e s2)"
proof -
  from assms obtain vs where 1: "map view_of (Posts s2) = map view_of (Posts s) @ vs"
    and 2: "prefix vs (originals_from c us)" by (auto simp: admits_def)
  have "prefix vs (originals_from c (us @ ws))"
    unfolding originals_from_append using 2 by (rule prefix_prefix)
  with 1 show ?thesis
    unfolding stores_received_def by auto
qed

lemma stores_received_done:
  assumes "admits c s us (Done s2)"
  shows "stores_received c s us (Done s2)"
  using assms by (simp add: admits_def stores_received_def)

lemma stores_received_nothing: "stores_received c s [] (Done s)" "stores_received c s [] (Raised e s)"
  by (simp_all add: stores_received_def)

lemma run_loop_save_all:
  assumes "Counter s = Some c"
    and "run_loop fuel env batch rid None s = Some r"
  shows "stores_received c s (received fuel env batch (request_offset s) (final_batch s)) r"
  using assms
proof (induction fuel arbitrary: s c)
  case 0 then show ?case by simp
next
  case (Suc fuel)
  show ?case
  proof (cases "query env batch (request_offset s)")
    case TransportError
    with Suc.prems(2) have "r = Raised RequestException s" by simp
    with TransportError show ?thesis by (simp add: stores_received_nothing)
  next
    case BadJson
    with Suc.prems(2) have "r = Raised JSONDecodeError s" by simp
    with BadJson show ?thesis by (simp add: stores_received_nothing)
  next
    case (Page docs)
    define s1 where "s1 = (if length docs < batch then s\<lparr>final_batch := True\<rparr> else s)"
    define ups where "ups = concat (map doc_Posts docs)"
    have s1: "Counter s1 = Some c" "Posts s1 = Posts s" "request_offset s1 = request_offset s"
      "final_batch s1 = (final_batch s \<or> length docs < batch)"
      using Suc.prems(1) by (auto simp: s1_def)
    note af = all_filler [of docs]
    have af': "length (filter (\<lambda>doc. doc_Posts doc = []) docs) = length docs \<longleftrightarrow> ups = []"
      unfolding ups_def by (rule af)
    have "docs = [] \<or> (docs \<noteq> [] \<and> ups = []) \<or> (docs \<noteq> [] \<and> ups \<noteq> [])"
      by blast
    then consider (empty) "docs = []"
      | (filler) "docs \<noteq> []" "ups = []"
          "length (filter (\<lambda>doc. doc_Posts doc = []) docs) = length docs"
      | (page) "docs \<noteq> []" "ups \<noteq> []"
          "length (filter (\<lambda>doc. doc_Posts doc = []) docs) \<noteq> length docs"
      unfolding af' by blast
    then show ?thesis
    proof cases
      case empty
      with Suc.prems(2) Page have "r = Done s" by simp
      with Page empty show ?thesis by (simp add: stores_received_nothing)
    next
      case filler
      define s2 where "s2 = s1\<lparr>request_offset := request_offset s1 + batch,
                           batches_processed := batches_processed s1 + 1\<rparr>"
      have rl: "run_loop fuel env batch rid None s2 = Some r"
        using Suc.prems(2) Page filler by (simp add: s1_def s2_def Let_def)
      have c2: "Counter s2 = Some c" using s1 by (simp add: s2_def)
      have s2: "Posts s2 = Posts s" "request_offset s2 = request_offset s + batch"
        "final_batch s2 = final_batch s1"
        using s1 by (simp_all add: s2_def)
      have rec: "received (Suc fuel) env batch (request_offset s) (final_batch s)
        = received fuel env batch (request_offset s + batch) (final_batch s1)"
        using Page filler(1,2) s1(4) by (simp add: Let_def ups_def)
      have "stores_received c s2 (received fuel env batch (request_offset s2) (final_batch s2)) r"
        using c2 rl by (rule Suc.IH)
      then have "stores_received c s (received fuel env batch (request_offset s2) (final_batch s2)) r"
        using s2(1) by (rule stores_received_same [rotated])
      then show ?thesis
        unfolding rec s2(2,3) .
    next
      case page
      have rec: "received (Suc fuel) env batch (request_offset s) (final_batch s)
        = ups @ (if final_batch s1 then [] else received fuel env batch (request_offset s + batch) (final_batch s1))"
        using Page page(1,2) s1(4) by (auto simp: Let_def ups_def)
      have a: "admits c s1 ups (process_page env rid None docs s1)"
        unfolding ups_def using s1(1) by (rule process_page_admits)
      show ?thesis
      proof (cases "process_page env rid None docs s1")
        case (Raised e s2)
        with Suc.prems(2) Page page have r: "r = Raised e s2" by (simp add: s1_def Let_def)
        from a Raised have "admits c s1 ups (Raised e s2)" by simp
        then have "stores_received c s1 (received (Suc fuel) env batch (request_offset s) (final_batch s)) r"
          unfolding rec r by (rule stores_received_raised)
        then show ?thesis using s1(2) by (rule stores_received_same [rotated])
      next
        case (Done s2)
        with a have a2: "admits c s1 ups (Done s2)" by simp
        then have v: "map view_of (Posts s2) = map view_of (Posts s1) @ originals_from c ups"
          and c2: "Counter s2 = Some (c + int (length ups))"
          and f2: "final_batch s2 = final_batch s1" "request_offset s2 = request_offset s1"
          by (auto simp: admits_def)
        show ?thesis
        proof (cases "final_batch s2")
          case True
          with Suc.prems(2) Page page Done have r: "r = Done s2"
            by (simp add: s1_def Let_def)
          have "received (Suc fuel) env batch (request_offset s) (final_batch s) = ups"
            unfolding rec using True f2 by simp
          moreover have "stores_received c s1 ups r"
            unfolding r using a2 by (rule stores_received_done)
          ultimately have "stores_received c s1 (received (Suc fuel) env batch (request_offset s) (final_batch s)) r"
            by simp
          then show ?thesis using s1(2) by (rule stores_received_same [rotated])
        next
          case False
          define s3 where "s3 = s2\<lparr>request_offset := request_offset s2 + batch\<rparr>"
          have rl: "run_loop fuel env batch rid None s3 = Some r"
            using Suc.prems(2) Page page Done False by (simp add: s1_def s3_def Let_def)
          have c3: "Counter s3 = Some (c + int (length ups))"
            using c2 by (simp add: s3_def)
          have s3: "Posts s3 = Posts s2" "request_offset s3 = request_offset s + batch"
            "final_batch s3 = final_batch s1"
            using f2 s1(3) by (simp_all add: s3_def)
          have rec': "received (Suc fuel) env batch (request_offset s) (final_batch s)
              = ups @ received fuel env batch (request_offset s3) (final_batch s3)"
            unfolding rec s3(2,3) using False f2 by simp
          have "stores_received (c + int (length ups)) s3
                  (received fuel env batch (request_offset s3) (final_batch s3)) r"
            using c3 rl by (rule Suc.IH)
          then have "stores_received (c + int (length ups)) s2
                  (received fuel env batch (request_offset s3) (final_batch s3)) r"
            using s3(1) by (rule stores_received_same [rotated])
          with v have "stores_received c s1 (ups @ received fuel env batch (request_offset s3) (final_batch s3)) r"
            by (rule stores_received_extend)
          then have "stores_received c s1 (received (Suc fuel) env batch (request_offset s) (final_batch s)) r"
            unfolding rec' .
          then show ?thesis using s1(2) by (rule stores_received_same [rotated])
        qed
      qed
    qed
  qed
qed

lemma prefix_originals_from:
  "prefix vs (originals_from c ups) \<Longrightarrow> vs = originals_from c (take (length vs) ups)"
proof (induction ups arbitrary: c vs)
  case Nil
  then show ?case by simp
next
  case (Cons u ups)
  then show ?case by (cases vs) auto
qed

lemma originals_from_lower:
  "v \<in> set (originals_from c us) \<Longrightarrow> \<exists>n. fst (snd v) = Some n \<and> c \<le> n"
proof (induction us arbitrary: c)
  case Nil then show ?case by simp
next
  case (Cons u us)
  then show ?case by fastforce
qed

lemma originals_from_increasing:
  "sorted_wrt (<) (map (\<lambda>v. the (fst (snd v))) (originals_from c us))"
proof (induction us arbitrary: c)
  case Nil then show ?case by simp
next
  case (Cons u us)
  have "c < the (fst (snd v))" if "v \<in> set (originals_from (c + 1) us)" for v
    using originals_from_lower [OF that] by auto
  with Cons.IH [of "c + 1"] show ?case by auto
qed

lemma originals_from_original:
  "v \<in> set (originals_from c us) \<Longrightarrow>
     (\<exists>n. fst (snd v) = Some n) \<and> fst (snd (snd v)) \<and> snd (snd (snd v)) = (None, Some [])"
  by (induction us arbitrary: c) auto

lemma exn_of_handler: "exn_of (handler r) = None \<longleftrightarrow> exn_of r = None"
  by (cases r rule: handler.cases) auto

text \<open>
  Claim C3. Take a run that finds no stored post and gets past its two checks of the
  upstream and the store. Whatever its outcome, the stored posts are, in admission
  order, an initial part of the posts received from upstream, each stored as an
  original (no back reference, an empty list of evidence) with the counter values
  \<open>c, c + 1, \<dots>\<close> as \<^verbatim>\<open>OrderNum\<close>, where \<open>c\<close> is the counter at the start (1 for a
  store without a counter); when the run returns normally, every post received has been
  stored. The \<^verbatim>\<open>OrderNum\<close> values are strictly increasing in admission order, and on a
  fresh store with three incoming posts they are 1, 2, 3.
\<close>

theorem save_all_admits_every_post:
  assumes "Posts s = []" and "query env 1 0 \<noteq> TransportError" and "server_info env"
    and "run fuel env batch (init s) = Some r"
  shows "prefix (map view_of (Posts (state_of r)))
           (originals_from (case Counter s of None \<Rightarrow> 1 | Some c \<Rightarrow> c)
              (received fuel env batch 0 False))
       \<and> (exn_of r = None \<longrightarrow>
            map view_of (Posts (state_of r)) =
              originals_from (case Counter s of None \<Rightarrow> 1 | Some c \<Rightarrow> c)
                (received fuel env batch 0 False))
       \<and> sorted_wrt (<) (map (\<lambda>p. the (OrderNum p)) (Posts (state_of r)))
       \<and> (\<forall>p \<in> set (Posts (state_of r)).
            IsOriginal p \<and> OrderNum p \<noteq> None \<and> RepostOff p = None \<and> Reposts p = Some [])
       \<and> map_option (map OrderNum \<circ> Posts \<circ> state_of)
            (run 1 (example_env three_posts) 5 (init fresh_store))
          = Some [Some 1, Some 2, Some 3]"
proof -
  define c where "c = (case Counter s of None \<Rightarrow> 1 | Some c \<Rightarrow> c)"
  define s1 where "s1 = (init s)\<lparr>Runs := Runs (init s) @ [\<lparr>run_oid = next_oid (init s),
        EndProcessTime = None, PostsProcessed = 0, BatchesProcessed = 0\<rparr>],
      next_oid := Suc (next_oid (init s)),
      request_offset := 0, final_batch := False, last_article_found := False,
      posts_processed := 0, batches_processed := 0\<rparr>"
  define ups where "ups = received fuel env batch 0 False"
  have i: "Posts (init s) = []" "Counter (init s) = Some c"
    using assms(1) by (auto simp: init_def c_def split: option.splits)
  have s1: "Posts s1 = []" "Counter s1 = Some c" "request_offset s1 = 0" "final_batch s1 = False"
    using i by (simp_all add: s1_def)
  have "find_one_by_OrderNum (Posts (init s)) = None"
    using i(1) by (simp add: find_one_by_OrderNum_def)
  with assms(2-4) obtain z where z: "run_loop fuel env batch (next_oid (init s)) None s1 = Some z"
    and r: "r = handler z"
    by (auto simp: run_def Let_def s1_def)
  have "stores_received c s1 (received fuel env batch (request_offset s1) (final_batch s1)) z"
    using s1(2) z by (rule run_loop_save_all)
  then have "stores_received c s1 ups z"
    unfolding ups_def s1(3,4) .
  then obtain vs where v: "map view_of (Posts (state_of z)) = map view_of (Posts s1) @ vs"
    and p: "prefix vs (originals_from c ups)"
    and d: "exn_of z = None \<longrightarrow> vs = originals_from c ups"
    unfolding stores_received_def by (elim exE conjE)
  have vr: "map view_of (Posts (state_of r)) = vs"
    using v r s1(1) by (simp add: state_of_handler)
  have k: "vs = originals_from c (take (length vs) ups)"
    using p by (rule prefix_originals_from)
  have "map (\<lambda>p. the (OrderNum p)) (Posts (state_of r))
          = map (\<lambda>v. the (fst (snd v))) (map view_of (Posts (state_of r)))"
    by (simp add: view_of_def)
  also have "\<dots> = map (\<lambda>v. the (fst (snd v))) (originals_from c (take (length vs) ups))"
    using vr k by simp
  finally have sorted: "sorted_wrt (<) (map (\<lambda>p. the (OrderNum p)) (Posts (state_of r)))"
    by (simp add: originals_from_increasing)
  have orig: "IsOriginal q \<and> OrderNum q \<noteq> None \<and> RepostOff q = None \<and> Reposts q = Some []"
    if "q \<in> set (Posts (state_of r))" for q
  proof -
    from that have "view_of q \<in> set (map view_of (Posts (state_of r)))" by simp
    then have "view_of q \<in> set (originals_from c (take (length vs) ups))"
      using vr k by simp
    from originals_from_original [OF this] show ?thesis
      by (auto simp: view_of_def)
  qed
  have scenario: "map_option (map OrderNum \<circ> Posts \<circ> state_of)
            (run 1 (example_env three_posts) 5 (init fresh_store))
          = Some [Some 1, Some 2, Some 3]"
    by code_simp
  have "prefix (map view_of (Posts (state_of r))) (originals_from c ups)"
    using p vr by simp
  moreover have "exn_of r = None \<longrightarrow> map view_of (Posts (state_of r)) = originals_from c ups"
    using d vr r by (simp add: exn_of_handler)
  ultimately show ?thesis
    using sorted orig scenario unfolding c_def ups_def by (intro conjI ballI) simp_all
qed

theorem save_all_admits_every_post_witness:
  "Posts fresh_store = []
   \<and> (\<exists>r. run 2 (example_env paged_upload) 2 (init fresh_store) = Some r
          \<and> exn_of r = None
          \<and> received 2 (example_env paged_upload) 2 0 False
               = [upost_of ''a'' ''225'', upost_of ''b'' ''227'', upost_of ''c'' ''339'']
          \<and> map view_of (Posts (state_of r))
               = [(''a'', Some 1, True, None, Some []), (''b'', Some 2, True, None, Some []),
                  (''c'', Some 3, True, None, Some [])])"
proof -
  have 1: "Posts fresh_store = []"
    by (simp add: fresh_store_def)
  have 2: "query (example_env paged_upload) 1 0 \<noteq> TransportError"
    by (simp add: example_env_def rest_of_def)
  have 3: "server_info (example_env paged_upload)"
    by (simp add: example_env_def)
  have "map_option exn_of (run 2 (example_env paged_upload) 2 (init fresh_store)) = Some None"
    by code_simp
  then obtain r where 4: "run 2 (example_env paged_upload) 2 (init fresh_store) = Some r"
    and 5: "exn_of r = None"
    by auto
  have 6: "received 2 (example_env paged_upload) 2 0 False
               = [upost_of ''a'' ''225'', upost_of ''b'' ''227'', upost_of ''c'' ''339'']"
    by code_simp
  have 7: "Counter fresh_store = None"
    by (simp add: fresh_store_def)
  from save_all_admits_every_post [OF 1 2 3 4] 5
  have "map view_of (Posts (state_of r)) =
          originals_from (case Counter fresh_store of None \<Rightarrow> 1 | Some c \<Rightarrow> c)
            (received 2 (example_env paged_upload) 2 0 False)"
    by simp
  then have "map view_of (Posts (state_of r))
               = [(''a'', Some 1, True, None, Some []), (''b'', Some 2, True, None, Some []),
                  (''c'', Some 3, True, None, Some [])]"
    unfolding 6 7 by (simp add: upost_of_def)
  with 1 4 5 6 show ?thesis by simp
qed

section \<open>The scan of the corpus after a classification\<close>

text \<open>
  The loop over the stored posts has no exit after the classification branch: whatever
  the entries \<open>pps\<close> scanned before did to the draft \<open>md\<close>, an entry \<open>pp\<close> that passes the
  tests is made the draft's \<^verbatim>\<open>RepostOff\<close> and gets one evidence entry appended, and the
  scan goes on with the entries \<open>qs\<close> after it.
\<close>

lemma compare_pp_passes:
  assumes "MediaId pp = Some k" and "k < length (Blobs s)"
    and "scale_images env im (imdecode env (Blobs s ! k)) (2 / 100) = Inr (Some a, Some b)"
    and "not_im (Some a) = Inr False"
    and "mse a b = Inr m" and "structural_similarity env a b = Inr ss"
    and "img_hash (hashfunc env) 10 a b = Inr hs"
    and "passes m ss hs pp"
  shows "compare_pp env pp (im, md, s) = classify pp m ss hs (Some a, md, s)"
  using assms by (simp add: compare_pp_def passes_def)

lemma scan_continues_after_classification:
  assumes "scan_corpus env pps c = Done (im, md, s)"
    and "MediaId pp = Some k" and "k < length (Blobs s)"
    and "scale_images env im (imdecode env (Blobs s ! k)) (2 / 100) = Inr (Some a, Some b)"
    and "not_im (Some a) = Inr False"
    and "mse a b = Inr m" and "structural_similarity env a b = Inr ss"
    and "img_hash (hashfunc env) 10 a b = Inr hs"
    and "passes m ss hs pp"
    and "Reposts pp = Some evs"
  shows "scan_corpus env (pps @ pp # qs) c =
           scan_corpus env qs
             (Some a,
              md\<lparr>IsOriginal := False, RepostOff := Some (oid pp), Reposts := None\<rparr>,
              s\<lparr>Posts := replace_one (oid pp)
                    (pp\<lparr>Reposts := Some (evs @
                        [\<lparr>ev_ArticleId = ArticleId md, ev_mse = m, ev_ssim = ss, ev_hs = hs,
                          ev_certainty = 1\<rparr>])\<rparr>)
                    (Posts s)\<rparr>)"
proof -
  have "compare_pp env pp (im, md, s) = classify pp m ss hs (Some a, md, s)"
    using assms(2-9) by (rule compare_pp_passes)
  with assms(1,10) show ?thesis
    by (simp add: scan_corpus_append classify_def)
qed

text \<open>
  The branch is not reached with a structural similarity that needs its window: the
  guard \<^verbatim>\<open>if not im:\<close> lets only an image of one pixel pass, for which the structural
  similarity raises. A comparison then never changes the draft or the store.
\<close>

lemma one_pixel_narrow:
  assumes "not_im (Some a) = Inr False"
  shows "snd (shape a) < 7"
proof -
  have "length (concat a) \<le> 1"
  proof (rule ccontr)
    assume "\<not> length (concat a) \<le> 1"
    then have "1 < length (concat a)" by simp
    then have "not_im (Some a) = Inl ValueError" by (rule not_im_many_pixels)
    with assms show False by simp
  qed
  then show ?thesis
    by (cases a) (auto simp: shape_def)
qed

lemma compare_pp_never_classifies:
  assumes "ssim_needs_window env"
    and "state_of (compare_pp env pp (im, md, s)) = (im', md', s')"
  shows "md' = md \<and> s' = s"
proof -
  have "structural_similarity env a b = Inl ValueError" if "not_im (Some a) = Inr False" for a b
    using assms(1) one_pixel_narrow [OF that] by (simp add: ssim_needs_window_def)
  then show ?thesis
    using assms(2)
    by (auto simp: compare_pp_def split: option.splits if_splits sum.splits bool.splits prod.splits)
qed

text \<open>
  So is the scan of the corpus, and the detection of a post stores at most the draft as
  it was built: an original without evidence.
\<close>

lemma scan_corpus_never_classifies:
  assumes "ssim_needs_window env"
    and "state_of (scan_corpus env pps (im, md, s)) = (im', md', s')"
  shows "md' = md \<and> s' = s"
  using assms(2)
proof (induction pps arbitrary: im)
  case Nil
  then show ?case by simp
next
  case (Cons pp pps)
  obtain im1 md1 s1 where st: "state_of (compare_pp env pp (im, md, s)) = (im1, md1, s1)"
    by (cases "state_of (compare_pp env pp (im, md, s))") auto
  have same: "md1 = md \<and> s1 = s"
    using assms(1) st by (rule compare_pp_never_classifies)
  show ?case
  proof (cases "compare_pp env pp (im, md, s)")
    case (Done c)
    with st same have "c = (im1, md, s)" by simp
    with Done Cons.prems have "state_of (scan_corpus env pps (im1, md, s)) = (im', md', s')"
      by simp
    then show ?thesis by (rule Cons.IH)
  next
    case (Raised e c)
    with st same have "c = (im1, md, s)" by simp
    with Raised Cons.prems show ?thesis by simp
  qed
qed

lemma detect_never_classifies:
  assumes "ssim_needs_window env"
  shows "Posts (state_of (detect env rid p s)) = Posts s
       \<or> (\<exists>md. Posts (state_of (detect env rid p s)) = Posts s @ [md]
                \<and> IsOriginal md \<and> RepostOff md = None \<and> Reposts md = Some [])"
proof (cases "b64decode env (post_MediaData p)")
  case None
  then show ?thesis by (simp add: detect_def)
next
  case (Some d)
  show ?thesis
  proof (cases "imdecode env d")
    case None
    with Some show ?thesis by (simp add: detect_def)
  next
    case (Some i)
    let ?md0 = "\<lparr>oid = 0, ArticleId = post_ArticleId p, OrderNum = None, RunId = rid,
               Dim = shape i, Media = None, MediaId = Some (length (Blobs s)),
               IsOriginal = True, RepostOff = None, Reposts = Some []\<rparr>"
    let ?r = "scan_corpus env (Posts s) (Some i, ?md0, s\<lparr>Blobs := Blobs s @ [d]\<rparr>)"
    obtain im' md' s' where st: "state_of ?r = (im', md', s')"
      by (cases "state_of ?r") auto
    have same: "md' = ?md0 \<and> s' = s\<lparr>Blobs := Blobs s @ [d]\<rparr>"
      using assms st by (rule scan_corpus_never_classifies)
    show ?thesis
    proof (cases ?r)
      case (Done c)
      with st same have "c = (im', ?md0, s\<lparr>Blobs := Blobs s @ [d]\<rparr>)" by simp
      with Done Some \<open>b64decode env (post_MediaData p) = Some d\<close> show ?thesis
        by (simp add: detect_def insert_one_def)
    next
      case (Raised e c)
      with st same have "c = (im', ?md0, s\<lparr>Blobs := Blobs s @ [d]\<rparr>)" by simp
      with Raised Some \<open>b64decode env (post_MediaData p) = Some d\<close> show ?thesis
        by (simp add: detect_def)
    qed
  qed
qed

section \<open>The boundary in resume mode\<close>

lemma replace_one_keys:
  assumes "oid q = i" and "\<forall>p \<in> set ps. oid p = i \<longrightarrow> ArticleId p = ArticleId q"
  shows "map key_of (replace_one i q ps) = map key_of ps"
  using assms by (induction ps) (auto simp: key_of_def)

lemma classify_keys:
  assumes "agrees pp s" and "state_of (classify pp m ss hs (im, md, s)) = (im', md', s')"
  shows "map key_of (Posts s') = map key_of (Posts s) \<and> ArticleId md' = ArticleId md
       \<and> s' = s\<lparr>Posts := Posts s'\<rparr>"
proof (cases "Reposts pp")
  case None
  with assms(2) show ?thesis by (auto simp: classify_def)
next
  case (Some evs)
  define pp' where "pp' = pp\<lparr>Reposts := Some (evs @
       [\<lparr>ev_ArticleId = ArticleId md, ev_mse = m, ev_ssim = ss, ev_hs = hs, ev_certainty = 1\<rparr>])\<rparr>"
  from Some assms(2)
  have md': "md' = md\<lparr>IsOriginal := False, RepostOff := Some (oid pp), Reposts := None\<rparr>"
    and s': "s' = s\<lparr>Posts := replace_one (oid pp) pp' (Posts s)\<rparr>"
    by (auto simp: classify_def pp'_def)
  have "\<forall>p \<in> set (Posts s). oid p = oid pp \<longrightarrow> ArticleId p = ArticleId pp'"
    using assms(1) by (auto simp: agrees_def key_of_def pp'_def)
  moreover have "oid pp' = oid pp" by (simp add: pp'_def)
  ultimately have "map key_of (replace_one (oid pp) pp' (Posts s)) = map key_of (Posts s)"
    by (rule replace_one_keys [rotated])
  with md' s' show ?thesis by simp
qed

lemma compare_pp_keys:
  assumes "agrees pp s" and "state_of (compare_pp env pp (im, md, s)) = (im', md', s')"
  shows "map key_of (Posts s') = map key_of (Posts s) \<and> ArticleId md' = ArticleId md
       \<and> s' = s\<lparr>Posts := Posts s'\<rparr>"
  using assms classify_keys [of pp s]
  by (auto simp: compare_pp_def split: option.splits if_splits sum.splits bool.splits prod.splits)


lemma agrees_keys: "map key_of (Posts s') = map key_of (Posts s) \<Longrightarrow> agrees pp s' = agrees pp s"
  by (simp add: agrees_def)

lemma scan_corpus_keys:
  assumes "\<forall>pp \<in> set pps. agrees pp s"
    and "state_of (scan_corpus env pps (im, md, s)) = (im', md', s')"
  shows "map key_of (Posts s') = map key_of (Posts s) \<and> ArticleId md' = ArticleId md
       \<and> s' = s\<lparr>Posts := Posts s'\<rparr>"
  using assms
proof (induction pps arbitrary: im md s)
  case Nil
  then show ?case by simp
next
  case (Cons pp pps)
  obtain im1 md1 s1 where c: "state_of (compare_pp env pp (im, md, s)) = (im1, md1, s1)"
    by (metis prod_cases3)
  have a: "agrees pp s" using Cons.prems(1) by simp
  from compare_pp_keys [OF a c]
  have k: "map key_of (Posts s1) = map key_of (Posts s)" and m: "ArticleId md1 = ArticleId md"
    and s1: "s1 = s\<lparr>Posts := Posts s1\<rparr>" by simp_all
  show ?case
  proof (cases "compare_pp env pp (im, md, s)")
    case (Raised x c1)
    with c Cons.prems(2) k m s1 show ?thesis by simp
  next
    case (Done c1)
    with c have c1: "c1 = (im1, md1, s1)" by simp
    have "\<forall>pp \<in> set pps. agrees pp s1"
      using Cons.prems(1) agrees_keys [OF k] by simp
    moreover have "state_of (scan_corpus env pps (im1, md1, s1)) = (im', md', s')"
      using Cons.prems(2) Done c1 by simp
    ultimately have "map key_of (Posts s') = map key_of (Posts s1) \<and> ArticleId md' = ArticleId md1
       \<and> s' = s1\<lparr>Posts := Posts s'\<rparr>"
      by (rule Cons.IH)
    with k m s1 show ?thesis
      by (metis state.surjective state.update_convs(1))
  qed
qed

lemma well_formed_agrees:
  assumes "well_formed_store s" and "pp \<in> set (Posts s)"
  shows "agrees pp s"
proof -
  have "p = pp" if "p \<in> set (Posts s)" "oid p = oid pp" for p
    using assms that by (auto simp: well_formed_store_def dest: inj_on_eq_iff [OF iffD1 [OF distinct_map, THEN conjunct2]])
  then show ?thesis by (auto simp: agrees_def key_of_def)
qed


lemma well_formed_keys:
  "well_formed_store s \<longleftrightarrow>
     distinct (map fst (map key_of (Posts s))) \<and> (\<forall>k \<in> set (map key_of (Posts s)). fst k < next_oid s)"
  by (auto simp: well_formed_store_def key_of_def comp_def)

lemma ArticleId_keys: "map ArticleId ps = map snd (map key_of ps)"
  by (simp add: key_of_def comp_def)

lemma detect_keys:
  assumes "well_formed_store s"
  shows "case detect env rid p s of
           Done s' \<Rightarrow>
             map key_of (Posts s') = map key_of (Posts s) @ [(next_oid s, post_ArticleId p)]
             \<and> next_oid s' = Suc (next_oid s)
             \<and> last_article_found s' = last_article_found s
             \<and> final_batch s' = final_batch s \<and> request_offset s' = request_offset s
         | Raised e s' \<Rightarrow>
             map key_of (Posts s') = map key_of (Posts s) \<and> next_oid s' = next_oid s"
proof (cases "b64decode env (post_MediaData p)")
  case None
  then show ?thesis by (simp add: detect_def)
next
  case (Some d)
  note dec = this
  define s1 where "s1 = s\<lparr>Blobs := Blobs s @ [d]\<rparr>"
  have wf1: "well_formed_store s1" using assms by (simp add: well_formed_store_def s1_def)
  show ?thesis
  proof (cases "imdecode env d")
    case None
    with dec show ?thesis by (simp add: detect_def s1_def)
  next
    case (Some i)
    define md where "md = \<lparr>oid = 0, ArticleId = post_ArticleId p, OrderNum = None,
                             RunId = rid, Dim = shape i, Media = None,
                             MediaId = Some (length (Blobs s)), IsOriginal = True,
                             RepostOff = None, Reposts = Some []\<rparr>"
    obtain im' md' s' where c: "state_of (scan_corpus env (Posts s1) (Some i, md, s1)) = (im', md', s')"
      by (metis prod_cases3)
    have "\<forall>pp \<in> set (Posts s1). agrees pp s1"
      using wf1 by (simp add: well_formed_agrees)
    from scan_corpus_keys [OF this c]
    have k: "map key_of (Posts s') = map key_of (Posts s1)" and m: "ArticleId md' = ArticleId md"
      and s': "s' = s1\<lparr>Posts := Posts s'\<rparr>" by simp_all
    have f: "next_oid s' = next_oid s" "last_article_found s' = last_article_found s"
      "final_batch s' = final_batch s" "request_offset s' = request_offset s"
      by (subst s', simp add: s1_def)+
    have k1: "map key_of (Posts s1) = map key_of (Posts s)" by (simp add: s1_def)
    show ?thesis
    proof (cases "scan_corpus env (Posts s1) (Some i, md, s1)")
      case (Done c1)
      with c have "c1 = (im', md', s')" by simp
      with Done dec Some have "detect env rid p s = Done (insert_one md' s')"
        by (simp add: detect_def s1_def md_def)
      moreover have "map key_of (Posts (insert_one md' s'))
          = map key_of (Posts s) @ [(next_oid s, post_ArticleId p)]"
        using k k1 m f(1) by (simp add: insert_one_def key_of_def md_def)
      ultimately show ?thesis
        using f by (simp add: insert_one_def)
    next
      case (Raised x c1)
      with c have "c1 = (im', md', s')" by simp
      with Raised dec Some have "detect env rid p s = Raised x s'"
        by (simp add: detect_def s1_def md_def)
      then show ?thesis using k k1 f by simp
    qed
  qed
qed

lemma detect_detects:
  assumes "well_formed_store s"
  shows "detects s [p] (detect env rid p s)"
proof (cases "detect env rid p s")
  case (Done s')
  with detect_keys [OF assms, where env = env and rid = rid and p = p]
  have k: "map key_of (Posts s') = map key_of (Posts s) @ [(next_oid s, post_ArticleId p)]"
    and n: "next_oid s' = Suc (next_oid s)" by simp_all
  have "well_formed_store s'"
    using assms unfolding well_formed_keys k n by auto
  moreover have "map ArticleId (Posts s') = map ArticleId (Posts s) @ [post_ArticleId p]"
    unfolding ArticleId_keys k by simp
  ultimately show ?thesis
    using Done by (simp add: detects_def)
next
  case (Raised e s')
  with detect_keys [OF assms, where env = env and rid = rid and p = p]
  have k: "map key_of (Posts s') = map key_of (Posts s)"
    and n: "next_oid s' = next_oid s" by simp_all
  have "well_formed_store s'"
    using assms unfolding well_formed_keys k n by auto
  moreover have "map ArticleId (Posts s') = map ArticleId (Posts s)"
    unfolding ArticleId_keys k by simp
  ultimately show ?thesis
    using Raised by (simp add: detects_def)
qed

lemma detects_step:
  assumes "detects s us r1"
    and "\<And>s1. r1 = Done s1 \<Longrightarrow> detects s1 ws (f s1)"
  shows "detects s (us @ ws) (case r1 of Done s1 \<Rightarrow> f s1 | Raised e s1 \<Rightarrow> Raised e s1)"
proof (cases r1)
  case (Raised e s1)
  from assms(1) obtain vs where wf: "well_formed_store (state_of r1)"
    and 1: "map ArticleId (Posts (state_of r1)) = map ArticleId (Posts s) @ vs"
    and 2: "prefix vs (map post_ArticleId us)"
    unfolding detects_def by (elim exE conjE)
  have "prefix vs (map post_ArticleId (us @ ws))"
    using 2 by simp
  with wf 1 Raised show ?thesis
    unfolding detects_def by (intro conjI exI [of _ vs]) simp_all
next
  case (Done s1)
  from assms(1) Done have 1: "map ArticleId (Posts s1) = map ArticleId (Posts s) @ map post_ArticleId us"
    unfolding detects_def by auto
  from assms(2) [OF Done] obtain vs where wf: "well_formed_store (state_of (f s1))"
    and 2: "map ArticleId (Posts (state_of (f s1))) = map ArticleId (Posts s1) @ vs"
    and 3: "prefix vs (map post_ArticleId ws)"
    and 4: "exn_of (f s1) = None \<longrightarrow> vs = map post_ArticleId ws"
    unfolding detects_def by (elim exE conjE)
  have a: "map ArticleId (Posts (state_of (f s1))) = map ArticleId (Posts s) @ (map post_ArticleId us @ vs)"
    using 1 2 by simp
  have b: "prefix (map post_ArticleId us @ vs) (map post_ArticleId (us @ ws))"
    using 3 by simp
  have c: "exn_of (f s1) = None \<longrightarrow> map post_ArticleId us @ vs = map post_ArticleId (us @ ws)"
    using 4 by simp
  show ?thesis
    unfolding detects_def using Done wf a b c
    by (intro conjI exI [of _ "map post_ArticleId us @ vs"]) simp_all
qed

lemma detects_nothing:
  "well_formed_store s' \<Longrightarrow> Posts s' = Posts s \<Longrightarrow> detects s [] (Done s')"
  by (simp add: detects_def)

lemma detects_same:
  "detects s ups (Done s1) \<Longrightarrow> Posts s2 = Posts s1 \<Longrightarrow> next_oid s2 = next_oid s1 \<Longrightarrow>
   detects s ups (Done s2)"
  by (simp add: detects_def well_formed_store_def)


lemma detect_flags:
  assumes "well_formed_store s" and "detect env rid p s = Done s'"
  shows "last_article_found s' = last_article_found s \<and> final_batch s' = final_batch s
       \<and> request_offset s' = request_offset s"
  using detect_keys [OF assms(1), where env = env and rid = rid and p = p] assms(2) by simp

lemma detects_well_formed: "detects s ups r \<Longrightarrow> well_formed_store (state_of r)"
  by (simp add: detects_def)

lemma resume_posts_detects:
  "well_formed_store s \<Longrightarrow>
   detects s (takeWhile (\<lambda>p. post_ArticleId p \<noteq> a) ps) (resume_posts env rid a ps s)"
proof (induction ps arbitrary: s)
  case Nil
  then show ?case by (simp add: detects_nothing)
next
  case (Cons p ps)
  show ?case
  proof (cases "a = post_ArticleId p")
    case True
    have "well_formed_store (s\<lparr>last_article_found := True\<rparr>)"
      using Cons.prems by (simp add: well_formed_store_def)
    then have "detects s [] (Done (s\<lparr>last_article_found := True\<rparr>))"
      by (rule detects_nothing) simp
    with True show ?thesis by simp
  next
    case False
    have "detects s ([p] @ takeWhile (\<lambda>p. post_ArticleId p \<noteq> a) ps)
            (case detect env rid p s of Done s1 \<Rightarrow> resume_posts env rid a ps s1
             | Raised e s1 \<Rightarrow> Raised e s1)"
    proof (rule detects_step)
      show "detects s [p] (detect env rid p s)"
        using Cons.prems by (rule detect_detects)
    next
      fix s1 assume "detect env rid p s = Done s1"
      then have "well_formed_store s1"
        using detect_detects [OF Cons.prems, of p env rid] by (simp add: detects_def)
      then show "detects s1 (takeWhile (\<lambda>p. post_ArticleId p \<noteq> a) ps) (resume_posts env rid a ps s1)"
        by (rule Cons.IH)
    qed
    with False show ?thesis by simp
  qed
qed

lemma resume_posts_flags:
  "well_formed_store s \<Longrightarrow> resume_posts env rid a ps s = Done s' \<Longrightarrow>
   last_article_found s' = (last_article_found s \<or> a \<in> set (map post_ArticleId ps))
   \<and> final_batch s' = final_batch s \<and> request_offset s' = request_offset s"
proof (induction ps arbitrary: s)
  case Nil
  then show ?case by simp
next
  case (Cons p ps)
  show ?case
  proof (cases "a = post_ArticleId p")
    case True
    with Cons.prems(2) show ?thesis by auto
  next
    case False
    with Cons.prems(2) obtain s1 where d: "detect env rid p s = Done s1"
      and r: "resume_posts env rid a ps s1 = Done s'"
      by (auto split: result.splits)
    have wf: "well_formed_store s1"
      using detect_detects [OF Cons.prems(1), of p env rid] d by (simp add: detects_def)
    from Cons.IH [OF wf r] detect_flags [OF Cons.prems(1) d] False show ?thesis
      by auto
  qed
qed

lemma resume_docs_found:
  "last_article_found s \<Longrightarrow>
   resume_docs env rid a ds s = (if ds = [] then Done s else Done (s\<lparr>final_batch := True\<rparr>))"
  by (cases ds) simp_all

lemma resume_docs_detects:
  "well_formed_store s \<Longrightarrow> \<not> last_article_found s \<Longrightarrow>
   detects s (routed a ds) (resume_docs env rid a ds s)"
proof (induction ds arbitrary: s)
  case Nil
  then show ?case by (simp add: detects_nothing)
next
  case (Cons d ds)
  show ?case
  proof (cases "a = doc_StartPostId d")
    case True
    have "well_formed_store (s\<lparr>final_batch := True\<rparr>)"
      using Cons.prems(1) by (simp add: well_formed_store_def)
    then have "detects s [] (Done (s\<lparr>final_batch := True\<rparr>))"
      by (rule detects_nothing) simp
    with True show ?thesis by simp
  next
    case False
    note rp = resume_posts_detects [OF Cons.prems(1), of a "doc_Posts d" env rid]
    show ?thesis
    proof (cases "a \<in> set (map post_ArticleId (doc_Posts d))")
      case True
      show ?thesis
      proof (cases "resume_posts env rid a (doc_Posts d) s")
        case (Raised e s1)
        with rp False True Cons.prems(2) show ?thesis by simp
      next
        case (Done s1)
        have "last_article_found s1"
          using resume_posts_flags [OF Cons.prems(1) Done] True by simp
        then have rd: "resume_docs env rid a ds s1 =
            (if ds = [] then Done s1 else Done (s1\<lparr>final_batch := True\<rparr>))"
          by (rule resume_docs_found)
        have "detects s (takeWhile (\<lambda>p. post_ArticleId p \<noteq> a) (doc_Posts d)) (Done s1)"
          using rp Done by simp
        then have "detects s (takeWhile (\<lambda>p. post_ArticleId p \<noteq> a) (doc_Posts d))
            (resume_docs env rid a ds s1)"
          unfolding rd by (auto intro: detects_same)
        with False True Cons.prems(2) Done show ?thesis by simp
      qed
    next
      case nomatch: False
      then have tw: "takeWhile (\<lambda>p. post_ArticleId p \<noteq> a) (doc_Posts d) = doc_Posts d"
        by (auto simp: takeWhile_eq_all_conv)
      have "detects s (doc_Posts d @ routed a ds)
            (case resume_posts env rid a (doc_Posts d) s of Done s1 \<Rightarrow> resume_docs env rid a ds s1
             | Raised e s1 \<Rightarrow> Raised e s1)"
      proof (rule detects_step)
        show "detects s (doc_Posts d) (resume_posts env rid a (doc_Posts d) s)"
          using rp tw by simp
      next
        fix s1 assume d: "resume_posts env rid a (doc_Posts d) s = Done s1"
        have "well_formed_store s1"
          using rp d by (simp add: detects_def)
        moreover have "\<not> last_article_found s1"
          using resume_posts_flags [OF Cons.prems(1) d] nomatch Cons.prems(2) by simp
        ultimately show "detects s1 (routed a ds) (resume_docs env rid a ds s1)"
          by (rule Cons.IH)
      qed
      with False nomatch Cons.prems(2) show ?thesis by simp
    qed
  qed
qed

lemma resume_docs_flags:
  "well_formed_store s \<Longrightarrow> \<not> last_article_found s \<Longrightarrow> resume_docs env rid a ds s = Done s' \<Longrightarrow>
   last_article_found s' = found_in_post a ds
   \<and> final_batch s' = (final_batch s \<or> marks_final a ds)
   \<and> request_offset s' = request_offset s"
proof (induction ds arbitrary: s)
  case Nil
  then show ?case by simp
next
  case (Cons d ds)
  show ?case
  proof (cases "a = doc_StartPostId d")
    case True
    with Cons.prems show ?thesis by auto
  next
    case False
    with Cons.prems(2,3) obtain s1 where rp: "resume_posts env rid a (doc_Posts d) s = Done s1"
      and rd: "resume_docs env rid a ds s1 = Done s'"
      by (auto split: result.splits)
    note f = resume_posts_flags [OF Cons.prems(1) rp]
    have wf: "well_formed_store s1"
      using resume_posts_detects [OF Cons.prems(1), of a "doc_Posts d" env rid] rp
      by (simp add: detects_def)
    show ?thesis
    proof (cases "a \<in> set (map post_ArticleId (doc_Posts d))")
      case True
      with f have "last_article_found s1" by simp
      from resume_docs_found [OF this, of env rid a ds] rd
      have "s' = (if ds = [] then s1 else s1\<lparr>final_batch := True\<rparr>)"
        by (simp split: if_splits)
      with f True False Cons.prems(2) show ?thesis by auto
    next
      case nomatch: False
      with f Cons.prems(2) have "\<not> last_article_found s1" by simp
      from Cons.IH [OF wf this rd] f False nomatch show ?thesis by simp
    qed
  qed
qed

lemma routed_before_boundary:
  "prefix (routed a ds) (takeWhile (\<lambda>p. post_ArticleId p \<noteq> a) (concat (map doc_Posts ds)))"
proof (induction ds)
  case Nil
  then show ?case by simp
next
  case (Cons d ds)
  show ?case
  proof (cases "a \<in> set (map post_ArticleId (doc_Posts d))")
    case True
    then have "takeWhile (\<lambda>p. post_ArticleId p \<noteq> a) (doc_Posts d @ concat (map doc_Posts ds))
                 = takeWhile (\<lambda>p. post_ArticleId p \<noteq> a) (doc_Posts d)"
      by (auto simp: takeWhile_append1)
    with True show ?thesis by simp
  next
    case False
    then have "takeWhile (\<lambda>p. post_ArticleId p \<noteq> a) (doc_Posts d @ concat (map doc_Posts ds))
                 = doc_Posts d @ takeWhile (\<lambda>p. post_ArticleId p \<noteq> a) (concat (map doc_Posts ds))"
      by (intro takeWhile_append2) auto
    with False Cons.IH show ?thesis by simp
  qed
qed


lemma process_page_resume:
  "process_page env rid (Some la) docs s =
     resume_docs env rid (ArticleId la) (filter (\<lambda>d. doc_Posts d \<noteq> []) docs) s"
  by (simp add: process_page_def)

lemma run_loop_after_boundary:
  "last_article_found s \<Longrightarrow> run_loop fuel env batch rid (Some la) s = Some r \<Longrightarrow>
   Posts (state_of r) = Posts s"
proof (induction fuel arbitrary: s)
  case 0
  then show ?case by simp
next
  case (Suc fuel)
  show ?case
  proof (cases "query env batch (request_offset s)")
    case TransportError
    with Suc.prems(2) show ?thesis by auto
  next
    case BadJson
    with Suc.prems(2) show ?thesis by auto
  next
    case (Page docs)
    define s1 where "s1 = (if length docs < batch then s\<lparr>final_batch := True\<rparr> else s)"
    have s1: "last_article_found s1" "Posts s1 = Posts s"
      using Suc.prems(1) by (auto simp: s1_def)
    show ?thesis
    proof (cases "docs = []")
      case True
      with Suc.prems(2) Page show ?thesis by auto
    next
      case nonempty: False
      show ?thesis
      proof (cases "length (filter (\<lambda>doc. doc_Posts doc = []) docs) = length docs")
        case True
        define s2 where "s2 = s1\<lparr>request_offset := request_offset s1 + batch,
                           batches_processed := batches_processed s1 + 1\<rparr>"
        have rl: "run_loop fuel env batch rid (Some la) s2 = Some r"
          using Suc.prems(2) Page nonempty True by (simp add: s1_def s2_def Let_def)
        have "last_article_found s2" using s1 by (simp add: s2_def)
        from Suc.IH [OF this rl] s1 show ?thesis by (simp add: s2_def)
      next
        case False
        define ds where "ds = filter (\<lambda>d. doc_Posts d \<noteq> []) docs"
        have pp: "process_page env rid (Some la) docs s1 =
                    (if ds = [] then Done s1 else Done (s1\<lparr>final_batch := True\<rparr>))"
          unfolding process_page_resume ds_def using s1(1) by (rule resume_docs_found)
        show ?thesis
        proof (cases "ds = [] \<and> \<not> final_batch s1")
          case True
          define s3 where "s3 = s1\<lparr>request_offset := request_offset s1 + batch\<rparr>"
          have rl: "run_loop fuel env batch rid (Some la) s3 = Some r"
            using Suc.prems(2) Page nonempty False pp True by (simp add: s1_def s3_def Let_def)
          have "last_article_found s3" using s1 by (simp add: s3_def)
          from Suc.IH [OF this rl] s1 show ?thesis by (simp add: s3_def)
        next
          case stop: False
          then have "r = Done s1 \<or> r = Done (s1\<lparr>final_batch := True\<rparr>)"
            using Suc.prems(2) Page nonempty False pp
            by (auto simp: s1_def Let_def split: if_splits)
          with s1 show ?thesis by auto
        qed
      qed
    qed
  qed
qed

text \<open>
  Claim C2, amended. For a page processed in resume mode on a well-formed store:
  while the last-seen article has not been found, the posts stored are, in order, the
  posts routed to detection, which lie strictly before the first post with the
  last-seen \<^verbatim>\<open>ArticleId\<close> (all of them on normal completion, an initial part if an
  exception ends the page); the page ends with the boundary flag set exactly when a post
  matched, and is marked final exactly when a document's \<^verbatim>\<open>StartPostId\<close> matched or a
  document with posts follows the matching one. Once the boundary flag is set, a page
  with posts stores nothing and is marked final, and no later page of the run stores
  anything.
\<close>

theorem boundary_stops_admission:
  assumes "well_formed_store s"
  shows "(\<not> last_article_found s \<longrightarrow>
            detects s (routed (ArticleId la) (filter (\<lambda>d. doc_Posts d \<noteq> []) docs))
              (process_page env rid (Some la) docs s)
          \<and> (\<forall>s'. process_page env rid (Some la) docs s = Done s' \<longrightarrow>
                last_article_found s'
                  = found_in_post (ArticleId la) (filter (\<lambda>d. doc_Posts d \<noteq> []) docs)
              \<and> final_batch s'
                  = (final_batch s
                     \<or> marks_final (ArticleId la) (filter (\<lambda>d. doc_Posts d \<noteq> []) docs))))
       \<and> prefix (routed (ArticleId la) (filter (\<lambda>d. doc_Posts d \<noteq> []) docs))
           (takeWhile (\<lambda>p. post_ArticleId p \<noteq> ArticleId la) (concat (map doc_Posts docs)))
       \<and> (last_article_found s \<longrightarrow>
            process_page env rid (Some la) docs s
              = (if filter (\<lambda>d. doc_Posts d \<noteq> []) docs = [] then Done s
                 else Done (s\<lparr>final_batch := True\<rparr>))
          \<and> (\<forall>fuel batch r. run_loop fuel env batch rid (Some la) s = Some r \<longrightarrow>
                Posts (state_of r) = Posts s))"
proof -
  define ds where "ds = filter (\<lambda>d. doc_Posts d \<noteq> []) docs"
  define a where "a = ArticleId la"
  have pp: "process_page env rid (Some la) docs s = resume_docs env rid a ds s"
    unfolding ds_def a_def by (rule process_page_resume)
  have 1: "detects s (routed a ds) (process_page env rid (Some la) docs s)"
    if "\<not> last_article_found s"
    unfolding pp using assms that by (rule resume_docs_detects)
  have 2: "last_article_found s' = found_in_post a ds
           \<and> final_batch s' = (final_batch s \<or> marks_final a ds)"
    if "\<not> last_article_found s" and "process_page env rid (Some la) docs s = Done s'" for s'
    using resume_docs_flags [OF assms that(1), of env rid a ds s'] that(2)
    unfolding pp by simp
  have "prefix (routed a ds) (takeWhile (\<lambda>p. post_ArticleId p \<noteq> a) (concat (map doc_Posts ds)))"
    by (rule routed_before_boundary)
  then have 3: "prefix (routed a ds) (takeWhile (\<lambda>p. post_ArticleId p \<noteq> a) (concat (map doc_Posts docs)))"
    unfolding ds_def by (simp only: concat_with_posts)
  have 4: "process_page env rid (Some la) docs s
             = (if ds = [] then Done s else Done (s\<lparr>final_batch := True\<rparr>))"
    if "last_article_found s"
    unfolding pp using that by (rule resume_docs_found)
  have 5: "Posts (state_of r) = Posts s"
    if "last_article_found s" and "run_loop fuel env batch rid (Some la) s = Some r" for fuel batch r
    using that by (rule run_loop_after_boundary)
  from 1 2 3 4 5 show ?thesis
    unfolding ds_def a_def by (intro conjI impI allI) auto
qed

theorem boundary_stops_admission_witness:
  "well_formed_store boundary_store \<and> \<not> last_article_found boundary_store
   \<and> routed ''42'' boundary_upload = [upost_of ''41'' ''117'']
   \<and> detects boundary_store [upost_of ''41'' ''117'']
         (process_page (example_env boundary_upload) 2 (Some (original_of 1 ''42'' 0 (1, 1)))
            boundary_upload boundary_store)
   \<and> process_page (example_env boundary_upload) 2 (Some (original_of 1 ''42'' 0 (1, 1)))
         boundary_upload (boundary_store\<lparr>last_article_found := True\<rparr>)
       = Done (boundary_store\<lparr>last_article_found := True, final_batch := True\<rparr>)"
proof -
  let ?la = "original_of 1 ''42'' 0 (1, 1)"
  let ?env = "example_env boundary_upload"
  have wf: "well_formed_store boundary_store"
    by (simp add: well_formed_store_def boundary_store_def store_of_def original_of_def)
  have nf: "\<not> last_article_found boundary_store"
    by (simp add: boundary_store_def store_of_def)
  have f: "filter (\<lambda>d. doc_Posts d \<noteq> []) boundary_upload = boundary_upload"
    by (simp add: boundary_upload_def)
  have a: "ArticleId ?la = ''42''"
    by (simp add: original_of_def)
  have r: "routed ''42'' boundary_upload = [upost_of ''41'' ''117'']"
    by (simp add: boundary_upload_def upost_of_def)
  have wf': "well_formed_store (boundary_store\<lparr>last_article_found := True\<rparr>)"
    using wf by (simp add: well_formed_store_def)
  have ne: "boundary_upload \<noteq> []"
    by (simp add: boundary_upload_def)
  from boundary_stops_admission [OF wf, of ?la boundary_upload ?env 2] nf
  have 1: "detects boundary_store [upost_of ''41'' ''117'']
         (process_page ?env 2 (Some ?la) boundary_upload boundary_store)"
    unfolding f a r by simp
  from boundary_stops_admission [OF wf', of ?la boundary_upload ?env 2]
  have 2: "process_page ?env 2 (Some ?la) boundary_upload (boundary_store\<lparr>last_article_found := True\<rparr>)
       = Done (boundary_store\<lparr>last_article_found := True, final_batch := True\<rparr>)"
    unfolding f using ne by simp
  from wf nf r 1 2 show ?thesis by simp
qed

text \<open>
  Claim C2, refuted in its last part. A first run stores post 42, the batch size being
  one document. In the next run the upstream document holds the posts 42, 43, 44: the
  boundary is found at the first post and nothing is stored, but the page is not marked
  final. With fuel for one request the loop is not left, and the run ends at the second
  request, which returns no document.
\<close>

theorem boundary_in_last_document_not_final:
  "Option.bind (run 2 (example_env upload_42) 1 (init fresh_store))
        (rerun 1 (example_env upload_42_44) 1) = None
   \<and> map_option exn_of
        (Option.bind (run 2 (example_env upload_42) 1 (init fresh_store))
           (rerun 2 (example_env upload_42_44) 1)) = Some None
   \<and> map_option (final_batch \<circ> state_of)
        (Option.bind (run 2 (example_env upload_42) 1 (init fresh_store))
           (rerun 2 (example_env upload_42_44) 1)) = Some False
   \<and> map_option (last_article_found \<circ> state_of)
        (Option.bind (run 2 (example_env upload_42) 1 (init fresh_store))
           (rerun 2 (example_env upload_42_44) 1)) = Some True
   \<and> map_option (request_offset \<circ> state_of)
        (Option.bind (run 2 (example_env upload_42) 1 (init fresh_store))
           (rerun 2 (example_env upload_42_44) 1)) = Some 1
   \<and> map_option (map ArticleId \<circ> Posts \<circ> state_of)
        (Option.bind (run 2 (example_env upload_42) 1 (init fresh_store))
           (rerun 2 (example_env upload_42_44) 1)) = Some [''42'']"
  by code_simp

section \<open>The exception of the guard leaves \<^verbatim>\<open>run()\<close>\<close>

text \<open>
  An exception raised by the detection of a post passes through the loops over the posts
  of a document, over the documents of a page and over the pages; passes of the loop that
  came before do not matter.
\<close>

lemma resume_posts_append:
  "a \<notin> set (map post_ArticleId ps) \<Longrightarrow>
   resume_posts env rid a (ps @ qs) s =
     (case resume_posts env rid a ps s of
        Done s' \<Rightarrow> resume_posts env rid a qs s'
      | Raised e s' \<Rightarrow> Raised e s')"
  by (induction ps arbitrary: s) (auto split: result.splits)

lemma resume_docs_append:
  "a \<notin> set (map doc_StartPostId ds) \<Longrightarrow> resume_docs env rid a ds s = Done s2 \<Longrightarrow>
   \<not> last_article_found s2 \<Longrightarrow>
   resume_docs env rid a (ds @ es) s = resume_docs env rid a es s2"
proof (induction ds arbitrary: s)
  case Nil
  then show ?case by simp
next
  case (Cons d ds)
  have nf: "\<not> last_article_found s"
  proof
    assume "last_article_found s"
    with Cons.prems(2) have "s2 = s\<lparr>final_batch := True\<rparr>" by simp
    with \<open>last_article_found s\<close> Cons.prems(3) show False by simp
  qed
  from Cons.prems(1) have ns: "a \<noteq> doc_StartPostId d" by simp
  from Cons.prems(2) nf ns obtain s' where rp: "resume_posts env rid a (doc_Posts d) s = Done s'"
    and rd: "resume_docs env rid a ds s' = Done s2"
    by (auto split: result.splits)
  have "resume_docs env rid a (ds @ es) s' = resume_docs env rid a es s2"
    using Cons.prems(1) rd Cons.prems(3) by (intro Cons.IH) simp_all
  with nf ns rp show ?case by simp
qed

lemma run_loop_page_raises:
  assumes "query env batch (request_offset s) = Page docs"
    and "filter (\<lambda>doc. doc_Posts doc \<noteq> []) docs \<noteq> []"
    and "process_page env rid la docs
           (if length docs < batch then s\<lparr>final_batch := True\<rparr> else s) = Raised e s'"
  shows "run_loop (Suc fuel) env batch rid la s = Some (Raised e s')"
proof -
  from assms(2) have ne: "docs \<noteq> []" by auto
  have "concat (map doc_Posts docs) \<noteq> []"
    using assms(2) by (auto simp: filter_empty_conv)
  then have nf: "length (filter (\<lambda>doc. doc_Posts doc = []) docs) \<noteq> length docs"
    using all_filler [of docs] by simp
  show ?thesis
    using assms(1,3) ne nf by (simp add: Let_def)
qed

lemma run_loop_pages_done:
  "pages_done n env batch rid la s = Some s' \<Longrightarrow>
   run_loop (n + fuel) env batch rid la s = run_loop fuel env batch rid la s'"
proof (induction n arbitrary: s)
  case 0
  then show ?case by simp
next
  case (Suc n)
  from Suc.prems obtain docs where q: "query env batch (request_offset s) = Page docs"
    by (auto split: response.splits)
  define s1 where "s1 = (if length docs < batch then s\<lparr>final_batch := True\<rparr> else s)"
  from Suc.prems q have ne: "docs \<noteq> []" by (auto split: if_splits)
  show ?case
  proof (cases "length (filter (\<lambda>doc. doc_Posts doc = []) docs) = length docs")
    case True
    define s2 where "s2 = s1\<lparr>request_offset := request_offset s1 + batch,
                           batches_processed := batches_processed s1 + 1\<rparr>"
    have "pages_done n env batch rid la s2 = Some s'"
      using Suc.prems q ne True by (simp add: s1_def s2_def Let_def)
    then have "run_loop (n + fuel) env batch rid la s2 = run_loop fuel env batch rid la s'"
      by (rule Suc.IH)
    then show ?thesis
      using q ne True by (simp add: s1_def s2_def Let_def)
  next
    case False
    from Suc.prems q ne False obtain s2 where pp: "process_page env rid la docs s1 = Done s2"
      and nf: "\<not> final_batch s2"
      and pd: "pages_done n env batch rid la (s2\<lparr>request_offset := request_offset s2 + batch\<rparr>) = Some s'"
      by (auto simp: s1_def Let_def split: result.splits if_splits)
    from pd have "run_loop (n + fuel) env batch rid la (s2\<lparr>request_offset := request_offset s2 + batch\<rparr>)
        = run_loop fuel env batch rid la s'"
      by (rule Suc.IH)
    then show ?thesis
      using q ne False pp nf by (simp add: s1_def Let_def)
  qed
qed

lemma run_enters_loop:
  assumes "query env 1 0 \<noteq> TransportError" and "server_info env"
  shows "run fuel env batch s =
           map_option handler
             (run_loop fuel env batch (next_oid s) (find_one_by_OrderNum (Posts s)) (run_start s))"
  using assms by (simp add: run_def run_start_def Let_def)

text \<open>
  Claim C10. Take a run in resume mode (a stored post \<open>la\<close> with the highest
  \<^verbatim>\<open>OrderNum\<close> is found, both checks of the server pass) whose first \<open>n\<close> passes of the
  loop stay in the loop, and whose next page is scanned without an exception and without
  meeting the boundary up to a post \<open>p\<close>. Take any comparison of the detection of \<open>p\<close>,
  reached after the stored posts \<open>pps\<close> were scanned without an exception: if
  \<^verbatim>\<open>_scale_images\<close> succeeds and its first result \<open>a\<close> has more than one pixel, the
  guard \<^verbatim>\<open>if not im:\<close> raises \<^verbatim>\<open>ValueError\<close>, with the draft and the store as the
  comparison found them, so that the stages after the guard are not reached. The scan of
  the corpus stops with it, the candidate is not inserted (the detection of the post ends
  with the store as the comparison found it), the handlers let the exception pass
  unwrapped, and \<^verbatim>\<open>run()\<close> ends with this \<^verbatim>\<open>ValueError\<close>.
\<close>

theorem truthiness_guard_raises:
  assumes "query env 1 0 \<noteq> TransportError" and "server_info env"
    and "find_one_by_OrderNum (Posts st) = Some la"
    and "pages_done n env batch (next_oid st) (Some la) (run_start st) = Some sp"
    and "query env batch (request_offset sp) = Page docs"
    and "filter (\<lambda>doc. doc_Posts doc \<noteq> []) docs = ds @ doc # es"
    and "ArticleId la \<notin> set (map doc_StartPostId ds)"
    and "resume_docs env (next_oid st) (ArticleId la) ds
           (if length docs < batch then sp\<lparr>final_batch := True\<rparr> else sp) = Done sd"
    and "\<not> last_article_found sd" and "ArticleId la \<noteq> doc_StartPostId doc"
    and "doc_Posts doc = ps @ p # qs"
    and "ArticleId la \<notin> set (map post_ArticleId (ps @ [p]))"
    and "resume_posts env (next_oid st) (ArticleId la) ps sd = Done s0"
    and "b64decode env (post_MediaData p) = Some d" and "imdecode env d = Some i"
    and "Posts s0 = pps @ pp # qps"
    and "scan_corpus env pps (Some i, md0, s0\<lparr>Blobs := Blobs s0 @ [d]\<rparr>) = Done (im, md, s)"
    and "md0 = \<lparr>oid = 0, ArticleId = post_ArticleId p, OrderNum = None, RunId = next_oid st,
               Dim = shape i, Media = None, MediaId = Some (length (Blobs s0)),
               IsOriginal = True, RepostOff = None, Reposts = Some []\<rparr>"
    and "MediaId pp = Some k" and "k < length (Blobs s)"
    and "scale_images env im (imdecode env (Blobs s ! k)) (2 / 100) = Inr (Some a, im0)"
    and "1 < length (concat a)"
  shows "compare_pp env pp (im, md, s) = Raised ValueError (Some a, md, s)
       \<and> detect env (next_oid st) p s0 = Raised ValueError s
       \<and> handler (Raised ValueError s) = Raised ValueError s
       \<and> run (n + Suc fuel) env batch st = Some (Raised ValueError s)"
proof -
  let ?rid = "next_oid st"
  let ?a = "ArticleId la"
  let ?s1 = "if length docs < batch then sp\<lparr>final_batch := True\<rparr> else sp"
  have c: "compare_pp env pp (im, md, s) = Raised ValueError (Some a, md, s)"
    using assms(19-22) by (rule compare_pp_guard)
  have "scan_corpus env (pps @ pp # qps) (Some i, md0, s0\<lparr>Blobs := Blobs s0 @ [d]\<rparr>)
          = Raised ValueError (Some a, md, s)"
    using assms(17) c by (simp add: scan_corpus_append)
  then have dt: "detect env ?rid p s0 = Raised ValueError s"
    using assms(14-16,18) by (simp add: detect_def)
  have nps: "?a \<notin> set (map post_ArticleId ps)" and np: "?a \<noteq> post_ArticleId p"
    using assms(12) by auto
  have "resume_posts env ?rid ?a (ps @ p # qs) sd = resume_posts env ?rid ?a (p # qs) s0"
    using nps assms(13) by (simp add: resume_posts_append)
  then have rp: "resume_posts env ?rid ?a (doc_Posts doc) sd = Raised ValueError s"
    using np dt assms(11) by simp
  have "resume_docs env ?rid ?a (ds @ doc # es) ?s1 = resume_docs env ?rid ?a (doc # es) sd"
    using assms(7,8,9) by (rule resume_docs_append)
  then have "resume_docs env ?rid ?a (ds @ doc # es) ?s1 = Raised ValueError s"
    using assms(9,10) rp by simp
  then have pp: "process_page env ?rid (Some la) docs ?s1 = Raised ValueError s"
    unfolding process_page_resume assms(6) .
  have ne: "filter (\<lambda>doc. doc_Posts doc \<noteq> []) docs \<noteq> []"
    unfolding assms(6) by simp
  have "run_loop (Suc fuel) env batch ?rid (Some la) sp = Some (Raised ValueError s)"
    using assms(5) ne pp by (rule run_loop_page_raises)
  then have "run_loop (n + Suc fuel) env batch ?rid (Some la) (run_start st)
               = Some (Raised ValueError s)"
    using run_loop_pages_done [OF assms(4), of "Suc fuel"] by simp
  then have "run (n + Suc fuel) env batch st = Some (Raised ValueError s)"
    unfolding run_enters_loop [OF assms(1,2)] assms(3) by simp
  with c dt show ?thesis by simp
qed

theorem truthiness_guard_raises_witness:
  "1 < length (concat [[5, 5], [5, 5 :: nat]])
   \<and> find_one_by_OrderNum (Posts detected_store) = Some (original_of 1 ''a'' 0 (2, 2))
   \<and> query (example_env second_upload) 5 0 = Page second_upload
   \<and> compare_pp (example_env second_upload) (original_of 1 ''a'' 0 (2, 2))
        (Some [[5, 5], [5, 5]], original_of 0 ''b'' 1 (2, 2)\<lparr>RunId := 2\<rparr>,
         (run_start detected_store)\<lparr>final_batch := True, Blobs := [[2, 2, 5], [2, 2, 5]]\<rparr>)
       = Raised ValueError (Some [[5, 5], [5, 5]], original_of 0 ''b'' 1 (2, 2)\<lparr>RunId := 2\<rparr>,
           (run_start detected_store)\<lparr>final_batch := True, Blobs := [[2, 2, 5], [2, 2, 5]]\<rparr>)
   \<and> run (0 + Suc 0) (example_env second_upload) 5 detected_store
       = Some (Raised ValueError
           ((run_start detected_store)\<lparr>final_batch := True, Blobs := [[2, 2, 5], [2, 2, 5]]\<rparr>))"
proof -
  let ?env = "example_env second_upload"
  let ?la = "original_of 1 ''a'' 0 (2, 2)"
  let ?sp = "run_start detected_store"
  let ?sz = "?sp\<lparr>final_batch := True\<rparr>"
  let ?s = "?sp\<lparr>final_batch := True, Blobs := [[2, 2, 5], [2, 2, 5]]\<rparr>"
  let ?docb = "\<lparr>doc_StartPostId = ''b'', doc_Posts = [upost_of ''b'' ''225'', upost_of ''a'' ''225'']\<rparr>"
  let ?md = "original_of 0 ''b'' 1 (2, 2)\<lparr>RunId := 2\<rparr>"
  have 1: "query ?env 1 0 \<noteq> TransportError"
    by (simp add: example_env_def rest_of_def)
  have 2: "server_info ?env"
    by (simp add: example_env_def)
  have 3: "find_one_by_OrderNum (Posts detected_store) = Some ?la"
    by code_simp
  have 4: "pages_done 0 ?env 5 (next_oid detected_store) (Some ?la) ?sp = Some ?sp"
    by simp
  have 5: "query ?env 5 (request_offset ?sp) = Page second_upload"
    by (simp add: example_env_def rest_of_def run_start_def second_upload_def)
  have 6: "filter (\<lambda>doc. doc_Posts doc \<noteq> []) second_upload = [] @ ?docb # []"
    by (simp add: second_upload_def)
  have 7: "ArticleId ?la \<notin> set (map doc_StartPostId [])"
    by simp
  have 8: "resume_docs ?env (next_oid detected_store) (ArticleId ?la) []
             (if length second_upload < 5 then ?sp\<lparr>final_batch := True\<rparr> else ?sp) = Done ?sz"
    by (simp add: second_upload_def)
  have 9: "\<not> last_article_found ?sz"
    by (simp add: run_start_def)
  have 10: "ArticleId ?la \<noteq> doc_StartPostId ?docb"
    by (simp add: original_of_def)
  have 11: "doc_Posts ?docb = [] @ upost_of ''b'' ''225'' # [upost_of ''a'' ''225'']"
    by simp
  have 12: "ArticleId ?la \<notin> set (map post_ArticleId ([] @ [upost_of ''b'' ''225'']))"
    by (simp add: original_of_def upost_of_def)
  have 13: "resume_posts ?env (next_oid detected_store) (ArticleId ?la) [] ?sz = Done ?sz"
    by simp
  have 14: "b64decode ?env (post_MediaData (upost_of ''b'' ''225'')) = Some [2, 2, 5]"
    by code_simp
  have 15: "imdecode ?env [2, 2, 5] = Some [[5, 5], [5, 5]]"
    by code_simp
  have 16: "Posts ?sz = [] @ ?la # []"
    by (simp add: run_start_def detected_store_def store_of_def)
  have b: "?sz\<lparr>Blobs := Blobs ?sz @ [[2, 2, 5]]\<rparr> = ?s"
    by (simp add: run_start_def detected_store_def store_of_def)
  have 17: "scan_corpus ?env [] (Some [[5, 5], [5, 5]], ?md, ?sz\<lparr>Blobs := Blobs ?sz @ [[2, 2, 5]]\<rparr>)
             = Done (Some [[5, 5], [5, 5]], ?md, ?s)"
    unfolding b by simp
  have 18: "?md =
      \<lparr>oid = 0, ArticleId = post_ArticleId (upost_of ''b'' ''225''), OrderNum = None,
       RunId = next_oid detected_store,
       Dim = shape [[5, 5], [5, 5]], Media = None, MediaId = Some (length (Blobs ?sz)),
       IsOriginal = True, RepostOff = None, Reposts = Some []\<rparr>"
    by (simp add: original_of_def upost_of_def shape_def detected_store_def store_of_def
        run_start_def)
  have 19: "MediaId ?la = Some 0"
    by (simp add: original_of_def)
  have 20: "0 < length (Blobs ?s)"
    by simp
  have 21: "scale_images ?env (Some [[5, 5], [5, 5]]) (imdecode ?env (Blobs ?s ! 0)) (2 / 100)
             = Inr (Some [[5, 5], [5, 5]], Some [[5, 5], [5, 5]])"
    by code_simp
  have 22: "1 < length (concat [[5, 5], [5, 5 :: nat]])"
    by simp
  note t = truthiness_guard_raises [OF 1 2 3 4 5 6 7 8 9 10 11 12 13 14 15 16 17 18 19 20 21 22,
      of 0]
  from t 3 5 22 show ?thesis
    by (simp add: run_start_def)
qed

section \<open>The run record\<close>

lemma compare_pp_Runs:
  "state_of (compare_pp env pp (im, md, s)) = (im', md', s') \<Longrightarrow> Runs s' = Runs s"
  by (auto simp: compare_pp_def classify_def Let_def
      split: option.splits if_splits sum.splits bool.splits prod.splits)

lemma scan_corpus_Runs:
  "state_of (scan_corpus env pps (im, md, s)) = (im', md', s') \<Longrightarrow> Runs s' = Runs s"
proof (induction pps arbitrary: im md s)
  case Nil
  then show ?case by simp
next
  case (Cons pp pps)
  obtain im1 md1 s1 where c: "state_of (compare_pp env pp (im, md, s)) = (im1, md1, s1)"
    by (metis prod_cases3)
  then have r: "Runs s1 = Runs s" by (rule compare_pp_Runs)
  show ?case
  proof (cases "compare_pp env pp (im, md, s)")
    case (Done c1)
    with c Cons.prems have "state_of (scan_corpus env pps (im1, md1, s1)) = (im', md', s')"
      by simp
    then have "Runs s' = Runs s1" by (rule Cons.IH)
    with r show ?thesis by simp
  next
    case (Raised x c1)
    with c Cons.prems r show ?thesis by simp
  qed
qed

lemma detect_Runs: "Runs (state_of (detect env rid p s)) = Runs s"
proof (cases "b64decode env (post_MediaData p)")
  case None
  then show ?thesis by (simp add: detect_def)
next
  case (Some d)
  note dec = this
  show ?thesis
  proof (cases "imdecode env d")
    case None
    with dec show ?thesis by (simp add: detect_def)
  next
    case (Some i)
    define s1 where "s1 = s\<lparr>Blobs := Blobs s @ [d]\<rparr>"
    define md where "md = \<lparr>oid = 0, ArticleId = post_ArticleId p, OrderNum = None,
                             RunId = rid, Dim = shape i, Media = None,
                             MediaId = Some (length (Blobs s)), IsOriginal = True,
                             RepostOff = None, Reposts = Some []\<rparr>"
    obtain im' md' s' where c: "state_of (scan_corpus env (Posts s1) (Some i, md, s1)) = (im', md', s')"
      by (metis prod_cases3)
    then have "Runs s' = Runs s1" by (rule scan_corpus_Runs)
    then have r: "Runs s' = Runs s" by (simp add: s1_def)
    show ?thesis
    proof (cases "scan_corpus env (Posts s1) (Some i, md, s1)")
      case (Done c1)
      with c have "c1 = (im', md', s')" by simp
      with Done dec Some r show ?thesis
        by (simp add: detect_def s1_def md_def insert_one_def)
    next
      case (Raised x c1)
      with c have "c1 = (im', md', s')" by simp
      with Raised dec Some r show ?thesis
        by (simp add: detect_def s1_def md_def)
    qed
  qed
qed

lemma bulk_admit_Runs: "Runs (state_of (bulk_admit env rid p s)) = Runs s"
  by (auto simp: bulk_admit_def Let_def insert_one_def split: option.splits)

lemma save_posts_Runs: "Runs (state_of (save_posts env rid ps s)) = Runs s"
proof (induction ps arbitrary: s)
  case Nil then show ?case by simp
next
  case (Cons p ps)
  then show ?case
    using bulk_admit_Runs [of env rid p s]
    by (cases "bulk_admit env rid p s") auto
qed

lemma save_docs_Runs: "Runs (state_of (save_docs env rid ds s)) = Runs s"
proof (induction ds arbitrary: s)
  case Nil then show ?case by simp
next
  case (Cons d ds)
  then show ?case
    using save_posts_Runs [of env rid "doc_Posts d" s]
    by (cases "save_posts env rid (doc_Posts d) s") auto
qed

lemma resume_posts_Runs: "Runs (state_of (resume_posts env rid a ps s)) = Runs s"
proof (induction ps arbitrary: s)
  case Nil then show ?case by simp
next
  case (Cons p ps)
  then show ?case
    using detect_Runs [of env rid p s]
    by (cases "detect env rid p s") auto
qed

lemma resume_docs_Runs: "Runs (state_of (resume_docs env rid a ds s)) = Runs s"
proof (induction ds arbitrary: s)
  case Nil then show ?case by simp
next
  case (Cons d ds)
  then show ?case
    using resume_posts_Runs [of env rid a "doc_Posts d" s]
    by (cases "resume_posts env rid a (doc_Posts d) s") auto
qed

lemma process_page_Runs: "Runs (state_of (process_page env rid la docs s)) = Runs s"
  by (cases la) (simp_all add: process_page_def save_docs_Runs resume_docs_Runs)

lemma run_loop_Runs:
  "run_loop fuel env batch rid la s = Some r \<Longrightarrow> Runs (state_of r) = Runs s"
proof (induction fuel arbitrary: s)
  case 0 then show ?case by simp
next
  case (Suc fuel)
  show ?case
  proof (cases "query env batch (request_offset s)")
    case TransportError
    with Suc.prems show ?thesis by auto
  next
    case BadJson
    with Suc.prems show ?thesis by auto
  next
    case (Page docs)
    define s1 where "s1 = (if length docs < batch then s\<lparr>final_batch := True\<rparr> else s)"
    have s1: "Runs s1 = Runs s" by (simp add: s1_def)
    have pp: "Runs (state_of (process_page env rid la docs s1)) = Runs s"
      using s1 by (simp add: process_page_Runs)
    show ?thesis
    proof (cases "docs = []")
      case True
      with Suc.prems Page show ?thesis by auto
    next
      case nonempty: False
      show ?thesis
      proof (cases "length (filter (\<lambda>doc. doc_Posts doc = []) docs) = length docs")
        case True
        define s2 where "s2 = s1\<lparr>request_offset := request_offset s1 + batch,
                           batches_processed := batches_processed s1 + 1\<rparr>"
        have "run_loop fuel env batch rid la s2 = Some r"
          using Suc.prems Page nonempty True by (simp add: s1_def s2_def Let_def)
        from Suc.IH [OF this] s1 show ?thesis by (simp add: s2_def)
      next
        case False
        show ?thesis
        proof (cases "process_page env rid la docs s1")
          case (Raised e s2)
          with Suc.prems Page nonempty False have "r = Raised e s2" by (simp add: s1_def Let_def)
          with pp Raised show ?thesis by simp
        next
          case (Done s2)
          show ?thesis
          proof (cases "final_batch s2")
            case True
            with Suc.prems Page nonempty False Done have "r = Done s2" by (simp add: s1_def Let_def)
            with pp Done show ?thesis by simp
          next
            case nf: False
            define s3 where "s3 = s2\<lparr>request_offset := request_offset s2 + batch\<rparr>"
            have "run_loop fuel env batch rid la s3 = Some r"
              using Suc.prems Page nonempty False Done nf by (simp add: s1_def s3_def Let_def)
            from Suc.IH [OF this] pp Done show ?thesis by (simp add: s3_def)
          qed
        qed
      qed
    qed
  qed
qed

lemma run_record_untouched:
  assumes "query env 1 0 \<noteq> TransportError" and "server_info env"
    and "run fuel env batch s = Some r"
  shows "Runs (state_of r) =
           Runs s @ [\<lparr>run_oid = next_oid s, EndProcessTime = None,
                      PostsProcessed = 0, BatchesProcessed = 0\<rparr>]"
proof -
  define s1 where "s1 = s\<lparr>Runs := Runs s @ [\<lparr>run_oid = next_oid s, EndProcessTime = None,
                                        PostsProcessed = 0, BatchesProcessed = 0\<rparr>],
                    next_oid := Suc (next_oid s),
                    request_offset := 0, final_batch := False, last_article_found := False,
                    posts_processed := 0, batches_processed := 0\<rparr>"
  from assms obtain z
    where z: "run_loop fuel env batch (next_oid s) (find_one_by_OrderNum (Posts s)) s1 = Some z"
      and r: "r = handler z"
    by (auto simp: run_def Let_def s1_def)
  from z have "Runs (state_of z) = Runs s1" by (rule run_loop_Runs)
  with r show ?thesis by (simp add: state_of_handler s1_def)
qed

text \<open>
  Claim C6, evaluated. A run on a fresh store that admits three posts from one page
  returns normally. The run record is still as it was inserted: no end time, both
  counters 0. The local counter of batches is 0 after the page with posts.
\<close>

theorem run_record_is_never_finalized:
  "map_option exn_of (run 1 (example_env three_posts) 5 (init fresh_store)) = Some None
   \<and> map_option (Runs \<circ> state_of) (run 1 (example_env three_posts) 5 (init fresh_store))
       = Some [\<lparr>run_oid = 0, EndProcessTime = None, PostsProcessed = 0, BatchesProcessed = 0\<rparr>]
   \<and> map_option (length \<circ> Posts \<circ> state_of)
        (run 1 (example_env three_posts) 5 (init fresh_store)) = Some 3
   \<and> map_option (posts_processed \<circ> state_of)
        (run 1 (example_env three_posts) 5 (init fresh_store)) = Some 3
   \<and> map_option (batches_processed \<circ> state_of)
        (run 1 (example_env three_posts) 5 (init fresh_store)) = Some 0"
  by code_simp

section \<open>Exceptions that leave \<^verbatim>\<open>run()\<close>\<close>

text \<open>
  The bulk path stores no key \<^verbatim>\<open>MediaId\<close>, and the comparison of the detection path
  reads it: a candidate that decodes is not stored when the first stored post was
  written by the bulk path.
\<close>

lemma compare_pp_no_MediaId:
  "MediaId pp = None \<Longrightarrow> compare_pp env pp c = Raised KeyError c"
  by (cases c) (simp add: compare_pp_def)

lemma bulk_admit_no_MediaId:
  assumes "\<forall>q \<in> set (Posts s). MediaId q = None"
  shows "\<forall>q \<in> set (Posts (state_of (bulk_admit env rid p s))). MediaId q = None"
  using assms by (auto simp: bulk_admit_def Let_def insert_one_def split: option.splits)

lemma detect_no_MediaId:
  assumes "Posts s = pp # pps" and "MediaId pp = None"
    and "b64decode env (post_MediaData p) = Some d" and "imdecode env d = Some i"
  shows "detect env rid p s = Raised KeyError (s\<lparr>Blobs := Blobs s @ [d]\<rparr>)"
  using assms by (simp add: detect_def compare_pp_no_MediaId)

text \<open>
  Claim C1, evaluated. A fresh store takes one post \<^verbatim>\<open>a\<close> with an \<open>8 \<times> 8\<close> image in a
  first run. In the next run the upstream serves a new post \<^verbatim>\<open>b\<close> with the same image
  (hash distance 0, structural similarity 1, mean squared error 0) in front of \<^verbatim>\<open>a\<close>,
  which is stored as an original: \<^verbatim>\<open>run()\<close> ends with \<^verbatim>\<open>KeyError\<close>, since the record of
  \<^verbatim>\<open>a\<close> has its blob under \<^verbatim>\<open>Media\<close> and the comparison reads \<^verbatim>\<open>MediaId\<close>. With the
  stored original written by the detection path instead, \<^verbatim>\<open>run()\<close> ends with
  \<^verbatim>\<open>ValueError\<close> at the guard \<^verbatim>\<open>if not im:\<close>. In both runs \<^verbatim>\<open>b\<close> is not stored and \<^verbatim>\<open>a\<close>
  gains no evidence.
\<close>

theorem identical_pair_is_not_classified:
  "img_hash thermometer 10 (replicate 8 (replicate 8 5)) (replicate 8 (replicate 8 5)) = Inr 0
   \<and> structural_similarity (example_env second_upload_8x8)
         (replicate 8 (replicate 8 5)) (replicate 8 (replicate 8 5)) = Inr (Fin 1)
   \<and> mse (replicate 8 (replicate 8 5)) (replicate 8 (replicate 8 5)) = Inr (Fin 0)
   \<and> map_option (map IsOriginal \<circ> Posts \<circ> state_of)
        (run 1 (example_env first_upload_8x8) 5 (init fresh_store)) = Some [True]
   \<and> map_option (map Dim \<circ> Posts \<circ> state_of)
        (run 1 (example_env first_upload_8x8) 5 (init fresh_store)) = Some [(8, 8)]
   \<and> map_option exn_of
        (Option.bind (run 1 (example_env first_upload_8x8) 5 (init fresh_store))
           (rerun 1 (example_env second_upload_8x8) 5))
       = Some (Some KeyError)
   \<and> map_option (map ArticleId \<circ> Posts \<circ> state_of)
        (Option.bind (run 1 (example_env first_upload_8x8) 5 (init fresh_store))
           (rerun 1 (example_env second_upload_8x8) 5))
       = Some [''a'']
   \<and> map_option (map Reposts \<circ> Posts \<circ> state_of)
        (Option.bind (run 1 (example_env first_upload_8x8) 5 (init fresh_store))
           (rerun 1 (example_env second_upload_8x8) 5))
       = Some [Some []]
   \<and> map_option exn_of (run 1 (example_env second_upload_8x8) 5 detected_store_8x8)
       = Some (Some ValueError)
   \<and> map_option (Posts \<circ> state_of) (run 1 (example_env second_upload_8x8) 5 detected_store_8x8)
       = Some (Posts detected_store_8x8)"
  by code_simp

text \<open>
  Claim C4, evaluated. The stored original is \<open>2 \<times> 2\<close>, the new post's image \<open>2 \<times> 4\<close>:
  a pair that cannot be scale-normalized. On a store filled by a first run, the next
  run ends with \<^verbatim>\<open>KeyError\<close> (the stored record has no key \<^verbatim>\<open>MediaId\<close>). On a store
  whose original was written by the detection path, \<^verbatim>\<open>_scale_images\<close> raises
  \<^verbatim>\<open>ValueError\<close> and \<^verbatim>\<open>run()\<close> ends with that \<^verbatim>\<open>ValueError\<close>. Neither is wrapped in
  \<^verbatim>\<open>AnalyzeConditionsNotMetException\<close>.
\<close>

theorem uncategorized_exception_escapes_run:
  "map_option exn_of
     (Option.bind (run 1 (example_env first_upload) 5 (init fresh_store))
        (rerun 1 (example_env wide_upload) 5))
     = Some (Some KeyError)
   \<and> scale_images (example_env wide_upload) (Some [[5, 5, 5, 5], [5, 5, 5, 5]])
       (Some [[5, 5], [5, 5]]) (2 / 100) = Inl ValueError
   \<and> run 1 (example_env wide_upload) 5 detected_store
       = Some (Raised ValueError
           (detected_store\<lparr>Blobs := [[2, 2, 5], [2, 4, 5]],
              Runs := [\<lparr>run_oid = 2, EndProcessTime = None, PostsProcessed = 0,
                        BatchesProcessed = 0\<rparr>],
              next_oid := 3, final_batch := True\<rparr>))"
  by code_simp

end
